theory Spec2Isabelle
  imports Main
begin

section \<open>JavaScript values\<close>

text \<open>
  Request bodies and tool arguments are JSON documents parsed by \<open>express.json()\<close>.
  A field that is missing from an object reads as \<open>undefined\<close>. Numbers are restricted to
  integers (command ids, tab ids, limits and clock readings are integers in this program).
  An object lists each of its keys once.
\<close>

datatype jsval =
    JUndefined
  | JNull
  | JBool bool
  | JNum int
  | JStr string
  | JArr "jsval list"
  | JObj "(string \<times> jsval) list"

text \<open>ToBoolean, as used by \<open>if (x)\<close>, \<open>x ? a : b\<close> and \<open>x || y\<close>.\<close>

fun truthy :: "jsval \<Rightarrow> bool" where
  "truthy JUndefined = False"
| "truthy JNull = False"
| "truthy (JBool b) = b"
| "truthy (JNum n) = (n \<noteq> 0)"
| "truthy (JStr s) = (s \<noteq> [])"
| "truthy (JArr xs) = True"
| "truthy (JObj kvs) = True"

text \<open>\<open>a || b\<close>\<close>

definition js_or :: "jsval \<Rightarrow> jsval \<Rightarrow> jsval" where
  "js_or a b = (if truthy a then a else b)"

text \<open>
  What the program throws: \<open>Err v\<close> is \<open>new Error(v)\<close> (for a string \<open>v\<close> the message of
  the error is that string), \<open>TypeErr\<close> is the TypeError of a property read on
  \<open>undefined\<close> or \<open>null\<close>, or of a call of something that is not a function.
\<close>

datatype js_exn = Err jsval | TypeErr

text \<open>\<open>v.name\<close>: a property read. Only a plain object has own data properties here.\<close>

fun get_prop :: "jsval \<Rightarrow> string \<Rightarrow> js_exn + jsval" where
  "get_prop JUndefined name = Inl TypeErr"
| "get_prop JNull name = Inl TypeErr"
| "get_prop (JObj kvs) name = Inr (case map_of kvs name of None \<Rightarrow> JUndefined | Some v \<Rightarrow> v)"
| "get_prop v name = Inr JUndefined"

text \<open>\<open>xs.slice(start)\<close> for an integer \<open>start\<close>: a negative start counts from the end.\<close>

definition slice :: "'a list \<Rightarrow> int \<Rightarrow> 'a list" where
  "slice xs start =
     (let len = int (length xs);
          k = (if start < 0 then max (len + start) 0 else min start len)
      in drop (nat k) xs)"

text \<open>\<open>xs.filter(p)\<close> where the callback may throw: the first exception ends the call.\<close>

fun filter_js :: "('a \<Rightarrow> js_exn + bool) \<Rightarrow> 'a list \<Rightarrow> js_exn + 'a list" where
  "filter_js p [] = Inr []"
| "filter_js p (x # xs) =
     (case p x of
        Inl e \<Rightarrow> Inl e
      | Inr b \<Rightarrow>
          (case filter_js p xs of
             Inl e \<Rightarrow> Inl e
           | Inr ys \<Rightarrow> Inr (if b then x # ys else ys)))"

section \<open>The JavaScript Map behind the command queue\<close>

text \<open>
  A \<open>Map\<close> keeps its entries in insertion order, one entry per key. It is modelled as an
  association list; the keys the program inserts are the integers from the id counter.
\<close>

type_synonym 'v js_map = "(int \<times> 'v) list"

definition map_get :: "'v js_map \<Rightarrow> int \<Rightarrow> 'v option" where
  "map_get m k = map_of m k"

fun map_set :: "'v js_map \<Rightarrow> int \<Rightarrow> 'v \<Rightarrow> 'v js_map" where
  "map_set [] k v = [(k, v)]"
| "map_set ((k', v') # m) k v = (if k' = k then (k, v) # m else (k', v') # map_set m k v)"

definition map_delete :: "'v js_map \<Rightarrow> int \<Rightarrow> 'v js_map" where
  "map_delete m k = filter (\<lambda>e. fst e \<noteq> k) m"

definition map_values :: "'v js_map \<Rightarrow> 'v list" where
  "map_values m = map snd m"

definition map_keys :: "'v js_map \<Rightarrow> int set" where
  "map_keys m = fst ` set m"

section \<open>Server state (mcp-server.js)\<close>

datatype status = Pending | Completed | Error

text \<open>What the poll endpoint hands out: \<open>{ id, action, params }\<close>.\<close>

record polled =
  id' :: int
  action :: string
  params :: jsval

text \<open>A command of the queue: \<open>{ id, action, params, timestamp, status, result }\<close>.\<close>

record command = polled +
  timestamp :: int
  status :: status
  result :: jsval

record devToolsData =
  networkRequests :: "jsval list"
  consoleLogs :: "jsval list"
  performanceMetrics :: "jsval list"
  lastUpdate :: "string option"

record server =
  devTools :: devToolsData
  commandQueue :: "command js_map"
  commandIdCounter :: int

definition init_server :: server where
  "init_server =
     \<lparr> devTools = \<lparr> networkRequests = [], consoleLogs = [], performanceMetrics = [],
                    lastUpdate = None \<rparr>,
       commandQueue = [],
       commandIdCounter = 0 \<rparr>"

text \<open>The acknowledgement \<open>res.json({ success: true })\<close>.\<close>

datatype ack = Success_true

subsection \<open>POST /devtools-data\<close>

text \<open>
  The body is \<open>{ type, data }\<close>; \<open>isoNow\<close> is the value of \<open>new Date().toISOString()\<close>.
  An unknown type stores nothing, and the handler still stamps \<open>lastUpdate\<close>.
\<close>

definition push_capped :: "nat \<Rightarrow> jsval list \<Rightarrow> jsval \<Rightarrow> jsval list" where
  "push_capped cap xs d =
     (let ys = xs @ [d] in if length ys > cap then slice ys (- int cap) else ys)"

definition devtools_data :: "jsval \<Rightarrow> jsval \<Rightarrow> string \<Rightarrow> server \<Rightarrow> ack \<times> server" where
  "devtools_data type data isoNow s =
     (let d = devTools s;
          d' = (if type = JStr ''network'' then
                  d\<lparr>networkRequests := push_capped 5000 (networkRequests d) data\<rparr>
                else if type = JStr ''console'' then
                  d\<lparr>consoleLogs := push_capped 5000 (consoleLogs d) data\<rparr>
                else if type = JStr ''performance'' then
                  d\<lparr>performanceMetrics := push_capped 500 (performanceMetrics d) data\<rparr>
                else d)
      in (Success_true, s\<lparr>devTools := d'\<lparr>lastUpdate := Some isoNow\<rparr>\<rparr>))"

text \<open>A run of pushes, each with its type, payload and time stamp.\<close>

fun pushes :: "(jsval \<times> jsval \<times> string) list \<Rightarrow> server \<Rightarrow> server" where
  "pushes [] s = s"
| "pushes ((type, data, isoNow) # ps) s = pushes ps (snd (devtools_data type data isoNow s))"

text \<open>
  For the statements about the buffers: the payloads that a run of pushes sent with the
  type \<open>ty\<close>, in the order of their arrival.
\<close>

definition pushed :: "string \<Rightarrow> (jsval \<times> jsval \<times> string) list \<Rightarrow> jsval list" where
  "pushed ty ps = map (\<lambda>p. fst (snd p)) (filter (\<lambda>p. fst p = JStr ty) ps)"

subsection \<open>GET /poll-commands\<close>

definition poll_commands :: "server \<Rightarrow> polled list \<times> server" where
  "poll_commands s =
     (let pendingCommands =
            map (\<lambda>cmd. \<lparr> id' = id' cmd, action = action cmd, params = params cmd \<rparr>)
              (filter (\<lambda>cmd. status cmd = Pending) (map_values (commandQueue s)))
      in (pendingCommands, s))"

subsection \<open>POST /command-result\<close>

text \<open>
  The body is \<open>{ commandId, success, result, error }\<close>. The queue is keyed by the numbers
  of the id counter, so a \<open>commandId\<close> that is not a number finds nothing.
\<close>

record report =
  commandId :: jsval
  success :: jsval
  r_result :: jsval
  r_error :: jsval

definition queue_get :: "command js_map \<Rightarrow> jsval \<Rightarrow> (int \<times> command) option" where
  "queue_get q v =
     (case v of
        JNum k \<Rightarrow> (case map_get q k of None \<Rightarrow> None | Some c \<Rightarrow> Some (k, c))
      | _ \<Rightarrow> None)"

definition command_result :: "report \<Rightarrow> server \<Rightarrow> ack \<times> server" where
  "command_result b s =
     (case queue_get (commandQueue s) (commandId b) of
        None \<Rightarrow> (Success_true, s)
      | Some (k, command) \<Rightarrow>
          (let command' = command
                 \<lparr> status := (if truthy (success b) then Completed else Error),
                   result := (if truthy (success b) then r_result b
                              else JObj [(''error'', r_error b)]) \<rparr>
           in (Success_true, s\<lparr>commandQueue := map_set (commandQueue s) k command'\<rparr>)))"

subsection \<open>The cleanup interval\<close>

definition maxAge :: int where
  "maxAge = 60000"

text \<open>
  \<open>for (const [id, cmd] of commandQueue.entries())\<close>: the loop visits the entries in
  order and deletes from the queue as it goes; \<open>now\<close> is its one reading of the clock.
  The only entry a turn of the loop deletes is the one it is visiting, so the entries
  still to visit are those the queue had at the start.
\<close>

fun cleanup_loop :: "int \<Rightarrow> command js_map \<Rightarrow> command js_map \<Rightarrow> command js_map" where
  "cleanup_loop now [] q = q"
| "cleanup_loop now ((k, cmd) # entries) q =
     cleanup_loop now entries (if now - timestamp cmd > maxAge then map_delete q k else q)"

definition cleanup :: "int \<Rightarrow> server \<Rightarrow> server" where
  "cleanup now s = s\<lparr>commandQueue := cleanup_loop now (commandQueue s) (commandQueue s)\<rparr>"

subsection \<open>sendCommandToExtension\<close>

definition timeout :: int where
  "timeout = 30000"

text \<open>How the async function settles: it returns a value or throws.\<close>

datatype outcome = Returned jsval | Threw js_exn

text \<open>\<open>v?.name\<close>: \<open>undefined\<close> when \<open>v\<close> is \<open>undefined\<close> or \<open>null\<close>.\<close>

definition opt_prop :: "jsval \<Rightarrow> string \<Rightarrow> jsval" where
  "opt_prop v name = (case get_prop v name of Inl e \<Rightarrow> JUndefined | Inr x \<Rightarrow> x)"

text \<open>
  One turn of the waiting loop, from the test of \<open>while (Date.now() - startTime < timeout)\<close>
  to the \<open>await\<close> of the 100 ms sleep; \<open>now\<close> is the reading of the clock in the test.
  The result is \<open>None\<close> when the function suspends in the sleep. \<open>cmd.status\<close> is read
  without a check that \<open>commandQueue.get\<close> found the command.
\<close>

definition wait_check :: "int \<Rightarrow> int \<Rightarrow> int \<Rightarrow> server \<Rightarrow> outcome option \<times> server" where
  "wait_check k startTime now s =
     (if now - startTime < timeout then
        (case map_get (commandQueue s) k of
           None \<Rightarrow> (Some (Threw TypeErr), s)
         | Some cmd \<Rightarrow>
             if status cmd = Completed then
               (Some (Returned (result cmd)),
                s\<lparr>commandQueue := map_delete (commandQueue s) k\<rparr>)
             else if status cmd = Error then
               (Some (Threw (Err (js_or (opt_prop (result cmd) ''error'')
                                        (JStr ''Command failed'')))),
                s\<lparr>commandQueue := map_delete (commandQueue s) k\<rparr>)
             else (None, s))
      else
        (Some (Threw (Err (JStr ''Command timeout''))),
         s\<lparr>commandQueue := map_delete (commandQueue s) k\<rparr>))"

text \<open>
  The call up to its first suspension. \<open>tStamp\<close>, \<open>tStart\<close> and \<open>tCheck\<close> are the three
  readings of \<open>Date.now()\<close>: for the command's timestamp, for \<open>startTime\<close> and for the
  first test of the loop. The result names the command id and the start time the
  suspended call keeps.
\<close>

definition sendCommandToExtension ::
  "string \<Rightarrow> jsval \<Rightarrow> int \<Rightarrow> int \<Rightarrow> int \<Rightarrow> server \<Rightarrow> (int \<times> int \<times> outcome option) \<times> server" where
  "sendCommandToExtension act prms tStamp tStart tCheck s =
     (let k = commandIdCounter s + 1;
          command = \<lparr> id' = k, action = act,
                      params = (if prms = JUndefined then JObj [] else prms),
                      timestamp = tStamp, status = Pending, result = JNull \<rparr>;
          s1 = s\<lparr>commandIdCounter := k, commandQueue := map_set (commandQueue s) k command\<rparr>;
          (out, s2) = wait_check k tStart tCheck s1
      in ((k, tStart, out), s2))"

section \<open>The event loop\<close>

text \<open>
  Node runs one callback at a time. Each event below is one such turn: a new call of
  \<open>sendCommandToExtension\<close> up to its first \<open>await\<close>, the wake-up of a suspended call
  after its sleep, a request to one of the HTTP endpoints, or a tick of the cleanup
  interval. Every reading of \<open>Date.now()\<close> is an argument of the event.
\<close>

datatype call = Awaiting int | Settled outcome

record system =
  srv :: server
  calls :: "int \<Rightarrow> call option"

definition init_system :: system where
  "init_system = \<lparr> srv = init_server, calls = (\<lambda>k. None) \<rparr>"

datatype event =
    Call string jsval int int int
  | Wake int int
  | PollCommands
  | CommandResult report
  | Cleanup int
  | DevtoolsData jsval jsval string

fun step :: "event \<Rightarrow> system \<Rightarrow> system" where
  "step (Call act prms tStamp tStart tCheck) sy =
     (case sendCommandToExtension act prms tStamp tStart tCheck (srv sy) of
        ((k, st, out), s') \<Rightarrow>
          sy\<lparr>srv := s',
             calls := (calls sy)(k \<mapsto> (case out of None \<Rightarrow> Awaiting st | Some r \<Rightarrow> Settled r))\<rparr>)"
| "step (Wake k now) sy =
     (case calls sy k of
        Some (Awaiting st) \<Rightarrow>
          (case wait_check k st now (srv sy) of
             (None, s') \<Rightarrow> sy\<lparr>srv := s'\<rparr>
           | (Some r, s') \<Rightarrow> sy\<lparr>srv := s', calls := (calls sy)(k \<mapsto> Settled r)\<rparr>)
      | _ \<Rightarrow> sy)"
| "step PollCommands sy = sy\<lparr>srv := snd (poll_commands (srv sy))\<rparr>"
| "step (CommandResult b) sy = sy\<lparr>srv := snd (command_result b (srv sy))\<rparr>"
| "step (Cleanup now) sy = sy\<lparr>srv := cleanup now (srv sy)\<rparr>"
| "step (DevtoolsData type data isoNow) sy = sy\<lparr>srv := snd (devtools_data type data isoNow (srv sy))\<rparr>"

definition run :: "event list \<Rightarrow> system \<Rightarrow> system" where
  "run evs sy = fold step evs sy"

text \<open>The clock readings of a trace, in the order they are taken.\<close>

fun readings :: "event \<Rightarrow> int list" where
  "readings (Call act prms tStamp tStart tCheck) = [tStamp, tStart, tCheck]"
| "readings (Wake k now) = [now]"
| "readings (Cleanup now) = [now]"
| "readings e = []"

definition clock :: "event list \<Rightarrow> int list" where
  "clock evs = concat (map readings evs)"

text \<open>The clock does not run backwards.\<close>

definition steady_clock :: "event list \<Rightarrow> bool" where
  "steady_clock evs = sorted (clock evs)"

text \<open>
  A call reads the clock for the timestamp and for \<open>startTime\<close> in one turn, four lines
  apart; \<open>prompt\<close> says that the two readings are no further apart than the margin
  between the age limit of the cleanup and the timeout of the call.
\<close>

fun prompt :: "event \<Rightarrow> bool" where
  "prompt (Call act prms tStamp tStart tCheck) = (tStart - tStamp \<le> maxAge - timeout)"
| "prompt e = True"

fun reports_for :: "int \<Rightarrow> event \<Rightarrow> bool" where
  "reports_for k (CommandResult b) = (commandId b = JNum k)"
| "reports_for k e = False"

fun wakes :: "int \<Rightarrow> event \<Rightarrow> bool" where
  "wakes k (Wake k' now) = (k' = k)"
| "wakes k e = False"

section \<open>Telemetry queries (the tool handlers)\<close>

text \<open>
  The arguments of the three query tools, typed as their input schemas declare them;
  \<open>None\<close> is an argument that was not given.
\<close>

record query_args =
  limit :: "int option"
  tab_id :: "int option"
  url_filter :: "string option"
  level_filter :: "string option"

text \<open>
  The object the handler serialises. \<open>q_count\<close> is the key \<open>filtered\<close> (\<open>returned\<close> for
  the metrics) and \<open>q_items\<close> the key \<open>requests\<close>, \<open>logs\<close> or \<open>metrics\<close>.
\<close>

record query_response =
  q_total :: nat
  q_count :: nat
  q_tabId :: jsval
  q_lastUpdate :: "string option"
  q_items :: "jsval list"

text \<open>\<open>args.limit || dflt\<close>\<close>

definition limit_or :: "int option \<Rightarrow> int \<Rightarrow> int" where
  "limit_or l dflt = (case l of None \<Rightarrow> dflt | Some n \<Rightarrow> if n \<noteq> 0 then n else dflt)"

text \<open>\<open>if (tabId) xs = xs.filter(x => x.tabId === tabId)\<close>\<close>

definition filter_tab :: "int option \<Rightarrow> jsval list \<Rightarrow> js_exn + jsval list" where
  "filter_tab tabId xs =
     (case tabId of
        None \<Rightarrow> Inr xs
      | Some n \<Rightarrow>
          if n \<noteq> 0 then
            filter_js (\<lambda>x. case get_prop x ''tabId'' of
                              Inl e \<Rightarrow> Inl e
                            | Inr v \<Rightarrow> Inr (v = JNum n)) xs
          else Inr xs)"

text \<open>\<open>tabId || 'all'\<close>\<close>

definition tab_or_all :: "int option \<Rightarrow> jsval" where
  "tab_or_all tabId =
     (case tabId of None \<Rightarrow> JStr ''all'' | Some n \<Rightarrow> js_or (JNum n) (JStr ''all''))"

text \<open>
  \<open>String.prototype.toLowerCase\<close> is a builtin of the language, with the case folding of
  Unicode. The URL filter takes it as the parameter \<open>lower\<close>, and what is proved below
  holds for every such function. \<open>ascii_lower\<close> is the builtin on strings of ASCII
  characters; the examples, whose strings are ASCII, are evaluated with it.
\<close>

definition lower_char :: "char \<Rightarrow> char" where
  "lower_char c =
     (let n = (of_char c :: nat) in if 65 \<le> n \<and> n \<le> 90 then char_of (n + 32) else c)"

definition ascii_lower :: "string \<Rightarrow> string" where
  "ascii_lower s = map lower_char s"

fun startsWith :: "string \<Rightarrow> string \<Rightarrow> bool" where
  "startsWith s [] = True"
| "startsWith [] (c # sub) = False"
| "startsWith (d # s) (c # sub) = (d = c \<and> startsWith s sub)"

fun includes_str :: "string \<Rightarrow> string \<Rightarrow> bool" where
  "includes_str [] sub = (sub = [])"
| "includes_str (d # s) sub = (startsWith (d # s) sub \<or> includes_str s sub)"

text \<open>\<open>req.url?.toLowerCase().includes(urlFilter.toLowerCase())\<close>\<close>

definition url_matches :: "(string \<Rightarrow> string) \<Rightarrow> string \<Rightarrow> jsval \<Rightarrow> js_exn + bool" where
  "url_matches lower urlFilter req =
     (case get_prop req ''url'' of
        Inl e \<Rightarrow> Inl e
      | Inr u \<Rightarrow>
          (case u of
             JUndefined \<Rightarrow> Inr False
           | JNull \<Rightarrow> Inr False
           | JStr url \<Rightarrow> Inr (includes_str (lower url) (lower urlFilter))
           | _ \<Rightarrow> Inl TypeErr))"

definition network_filtered ::
  "(string \<Rightarrow> string) \<Rightarrow> query_args \<Rightarrow> server \<Rightarrow> js_exn + jsval list" where
  "network_filtered lower args s =
     (case filter_tab (tab_id args) (networkRequests (devTools s)) of
        Inl e \<Rightarrow> Inl e
      | Inr requests \<Rightarrow>
          (case url_filter args of
             None \<Rightarrow> Inr requests
           | Some urlFilter \<Rightarrow>
               if urlFilter \<noteq> [] then filter_js (url_matches lower urlFilter) requests
               else Inr requests))"

definition get_network_requests ::
  "(string \<Rightarrow> string) \<Rightarrow> query_args \<Rightarrow> server \<Rightarrow> js_exn + query_response" where
  "get_network_requests lower args s =
     (case network_filtered lower args s of
        Inl e \<Rightarrow> Inl e
      | Inr requests \<Rightarrow>
          (let requests' = slice requests (- limit_or (limit args) 50)
           in Inr \<lparr> q_total = length (networkRequests (devTools s)),
                    q_count = length requests',
                    q_tabId = tab_or_all (tab_id args),
                    q_lastUpdate = lastUpdate (devTools s),
                    q_items = requests' \<rparr>))"

text \<open>\<open>log.level === levelFilter\<close>\<close>

definition level_matches :: "string \<Rightarrow> jsval \<Rightarrow> js_exn + bool" where
  "level_matches levelFilter log =
     (case get_prop log ''level'' of
        Inl e \<Rightarrow> Inl e
      | Inr v \<Rightarrow> Inr (v = JStr levelFilter))"

definition console_filtered :: "query_args \<Rightarrow> server \<Rightarrow> js_exn + jsval list" where
  "console_filtered args s =
     (case filter_tab (tab_id args) (consoleLogs (devTools s)) of
        Inl e \<Rightarrow> Inl e
      | Inr logs \<Rightarrow>
          (case level_filter args of
             None \<Rightarrow> Inr logs
           | Some levelFilter \<Rightarrow>
               if levelFilter \<noteq> [] then filter_js (level_matches levelFilter) logs
               else Inr logs))"

definition get_console_logs :: "query_args \<Rightarrow> server \<Rightarrow> js_exn + query_response" where
  "get_console_logs args s =
     (case console_filtered args s of
        Inl e \<Rightarrow> Inl e
      | Inr logs \<Rightarrow>
          (let logs' = slice logs (- limit_or (limit args) 50)
           in Inr \<lparr> q_total = length (consoleLogs (devTools s)),
                    q_count = length logs',
                    q_tabId = tab_or_all (tab_id args),
                    q_lastUpdate = lastUpdate (devTools s),
                    q_items = logs' \<rparr>))"

definition get_performance_metrics :: "query_args \<Rightarrow> server \<Rightarrow> js_exn + query_response" where
  "get_performance_metrics args s =
     (case filter_tab (tab_id args) (performanceMetrics (devTools s)) of
        Inl e \<Rightarrow> Inl e
      | Inr metrics \<Rightarrow>
          (let metrics' = slice metrics (- limit_or (limit args) 20)
           in Inr \<lparr> q_total = length (performanceMetrics (devTools s)),
                    q_count = length metrics',
                    q_tabId = tab_or_all (tab_id args),
                    q_lastUpdate = lastUpdate (devTools s),
                    q_items = metrics' \<rparr>))"

section \<open>Invariants of the event loop\<close>

text \<open>
  The state of a call after \<open>commandQueue.set\<close> and before its first test of the loop.
\<close>

definition enqueue :: "string \<Rightarrow> jsval \<Rightarrow> int \<Rightarrow> server \<Rightarrow> server" where
  "enqueue act prms tStamp s =
     s\<lparr>commandIdCounter := commandIdCounter s + 1,
       commandQueue := map_set (commandQueue s) (commandIdCounter s + 1)
          \<lparr> id' = commandIdCounter s + 1, action = act,
            params = (if prms = JUndefined then JObj [] else prms),
            timestamp = tStamp, status = Pending, result = JNull \<rparr>\<rparr>"

text \<open>
  The queue has one entry per key, the ids of all calls so far are at most the counter,
  and a call that has settled has removed its command.
\<close>

definition struct_inv :: "system \<Rightarrow> bool" where
  "struct_inv sy \<longleftrightarrow>
     distinct (map fst (commandQueue (srv sy)))
     \<and> (\<forall>j. calls sy j \<noteq> None \<longrightarrow> j \<le> commandIdCounter (srv sy))
     \<and> (\<forall>j r. calls sy j = Some (Settled r) \<longrightarrow> map_get (commandQueue (srv sy)) j = None)"

text \<open>
  A suspended call still has its command in the queue, stamped at most
  \<open>maxAge - timeout\<close> before the start of the call, unless the clock has already been
  read at or past the deadline of the call; and no call has failed on a missing command.
\<close>

definition timing_inv :: "event list \<Rightarrow> system \<Rightarrow> bool" where
  "timing_inv evs sy \<longleftrightarrow>
     (\<forall>j st. calls sy j = Some (Awaiting st) \<longrightarrow>
        (\<exists>c. map_get (commandQueue (srv sy)) j = Some c \<and> st - timestamp c \<le> maxAge - timeout)
        \<or> (\<exists>t\<in>set (clock evs). timeout \<le> t - st))
     \<and> (\<forall>j. calls sy j \<noteq> Some (Settled (Threw TypeErr)))"

text \<open>
  As long as no report has named an id, its command is pending, and the call, once
  settled, has timed out.
\<close>

definition report_inv :: "event list \<Rightarrow> system \<Rightarrow> bool" where
  "report_inv evs sy \<longleftrightarrow>
     (\<forall>j c. map_get (commandQueue (srv sy)) j = Some c \<longrightarrow> (\<forall>e\<in>set evs. \<not> reports_for j e)
        \<longrightarrow> status c = Pending)
     \<and> (\<forall>j r. calls sy j = Some (Settled r) \<longrightarrow> (\<forall>e\<in>set evs. \<not> reports_for j e)
        \<longrightarrow> r = Threw (Err (JStr ''Command timeout'')))"

section \<open>Results\<close>

subsection \<open>The Map operations\<close>

lemma map_get_set: "map_get (map_set m k v) j = (if j = k then Some v else map_get m j)"
  by (induction m) (auto simp: map_get_def)

lemma map_get_delete: "map_get (map_delete m k) j = (if j = k then None else map_get m j)"
  by (induction m) (auto simp: map_get_def map_delete_def)

lemma map_keys_set: "map_keys (map_set m k v) = insert k (map_keys m)"
  unfolding map_keys_def by (induction m) force+

lemma map_keys_delete: "map_keys (map_delete m k) = map_keys m - {k}"
  by (auto simp: map_keys_def map_delete_def)

lemma map_get_None_iff: "map_get m k = None \<longleftrightarrow> k \<notin> map_keys m"
  by (simp add: map_get_def map_keys_def map_of_eq_None_iff)

lemma map_fst_set: "k \<in> map_keys m \<Longrightarrow> map fst (map_set m k v) = map fst m"
  unfolding map_keys_def by (induction m) force+

lemma map_fst_set_new: "k \<notin> map_keys m \<Longrightarrow> map fst (map_set m k v) = map fst m @ [k]"
  unfolding map_keys_def by (induction m) force+

lemma distinct_map_set: "distinct (map fst m) \<Longrightarrow> distinct (map fst (map_set m k v))"
  by (cases "k \<in> map_keys m") (auto simp: map_fst_set map_fst_set_new map_keys_def)

lemma distinct_map_delete: "distinct (map fst m) \<Longrightarrow> distinct (map fst (map_delete m k))"
  by (simp add: map_delete_def distinct_map_filter)

lemma queue_get_None_iff:
  "queue_get q v = None \<longleftrightarrow> (\<forall>k. v = JNum k \<longrightarrow> k \<notin> map_keys q)"
  by (auto simp: queue_get_def map_get_None_iff[symmetric] split: jsval.splits option.splits)

lemma map_get_filter:
  assumes "distinct (map fst q)"
  shows "map_get (filter P q) k =
     (case map_get q k of None \<Rightarrow> None | Some c \<Rightarrow> if P (k, c) then Some c else None)"
  using assms
proof (induction q)
  case Nil
  then show ?case by (simp add: map_get_def)
next
  case (Cons e q)
  obtain j c where e: "e = (j, c)" by (cases e)
  from Cons.prems have notin: "j \<notin> fst ` set q" and d: "distinct (map fst q)"
    by (auto simp: e)
  have none: "map_of (filter P q) j = None"
    using notin by (auto simp: map_of_eq_None_iff)
  show ?case
    using Cons.IH [OF d] none by (auto simp: e map_get_def split: option.splits)
qed

lemma slice_last: "0 < n \<Longrightarrow> slice xs (- int n) = drop (length xs - n) xs"
proof -
  assume "0 < n"
  have "nat (max (int (length xs) - int n) 0) = length xs - n" by linarith
  with \<open>0 < n\<close> show ?thesis by (simp add: slice_def Let_def)
qed

subsection \<open>Reports for unknown ids\<close>

text \<open>
  Claim C4. A report whose \<open>commandId\<close> is not a key of the command queue (a number that
  is not in the queue, or no number at all) is acknowledged with \<open>{ success: true }\<close> and
  the server state, the queue included, is left as it was. The handler has no failing
  branch: its result is always an acknowledgement and a state.
\<close>

theorem unknown_report_acknowledged_and_dropped:
  assumes "\<forall>k. commandId b = JNum k \<longrightarrow> k \<notin> map_keys (commandQueue s)"
  shows "command_result b s = (Success_true, s)"
proof -
  from assms have "queue_get (commandQueue s) (commandId b) = None"
    by (simp add: queue_get_None_iff)
  then show ?thesis by (simp add: command_result_def)
qed

theorem unknown_report_witness:
  "7 \<notin> map_keys (commandQueue init_server)
   \<and> command_result \<lparr>commandId = JNum 7, success = JBool True, r_result = JStr ''late'',
                      r_error = JUndefined\<rparr> init_server = (Success_true, init_server)"
proof -
  have h: "\<forall>k. commandId \<lparr>commandId = JNum 7, success = JBool True, r_result = JStr ''late'',
                     r_error = JUndefined\<rparr> = JNum k
        \<longrightarrow> k \<notin> map_keys (commandQueue init_server)"
    by (simp add: init_server_def map_keys_def)
  from unknown_report_acknowledged_and_dropped [OF h] show ?thesis
    by (simp add: init_server_def map_keys_def)
qed

subsection \<open>Reports for ids in the queue\<close>

text \<open>
  Claim C1, as the code has it. The handler tests only that the command is in the queue;
  it does not look at the current status. For every id in the queue a report sets the
  status to completed (a truthy \<open>success\<close>) or to error (otherwise) and replaces the
  result by the reported payload (or by \<open>{ error }\<close>), whether the status was pending,
  completed or error before. Every other command, the order of the queue, the counter and
  the telemetry are left as they were, and the report is acknowledged.
\<close>

theorem report_overwrites_whatever_the_status:
  assumes "map_get (commandQueue s) k = Some c" and "commandId b = JNum k"
  shows "fst (command_result b s) = Success_true
    \<and> map_get (commandQueue (snd (command_result b s))) k =
        Some (c\<lparr>status := (if truthy (success b) then Completed else Error),
                result := (if truthy (success b) then r_result b
                           else JObj [(''error'', r_error b)])\<rparr>)
    \<and> (\<forall>j. j \<noteq> k \<longrightarrow>
          map_get (commandQueue (snd (command_result b s))) j = map_get (commandQueue s) j)
    \<and> map fst (commandQueue (snd (command_result b s))) = map fst (commandQueue s)
    \<and> devTools (snd (command_result b s)) = devTools s
    \<and> commandIdCounter (snd (command_result b s)) = commandIdCounter s"
proof -
  from assms(1) have "k \<in> map_keys (commandQueue s)"
    using map_get_None_iff [of "commandQueue s" k] by simp
  with assms show ?thesis
    by (simp add: command_result_def queue_get_def map_get_set map_fst_set Let_def)
qed

text \<open>
  The claim as it is written fails: a command is sent, the peer reports success, and a
  second report for the same id, before the caller has woken up and removed the command,
  turns the completed command into a failed one and replaces its result.
\<close>

theorem second_report_changes_terminal_status:
  "map status (map_values (commandQueue (snd (command_result
       \<lparr>commandId = JNum 1, success = JBool True, r_result = JStr ''done'',
          r_error = JUndefined\<rparr>
       (snd (sendCommandToExtension ''click'' (JObj []) 0 0 0 init_server)))))) = [Completed]
   \<and> map status (map_values (commandQueue (snd (command_result
       \<lparr>commandId = JNum 1, success = JBool False, r_result = JUndefined,
          r_error = JStr ''again''\<rparr>
       (snd (command_result
         \<lparr>commandId = JNum 1, success = JBool True, r_result = JStr ''done'',
            r_error = JUndefined\<rparr>
         (snd (sendCommandToExtension ''click'' (JObj []) 0 0 0 init_server)))))))) = [Error]
   \<and> map result (map_values (commandQueue (snd (command_result
       \<lparr>commandId = JNum 1, success = JBool False, r_result = JUndefined,
          r_error = JStr ''again''\<rparr>
       (snd (command_result
         \<lparr>commandId = JNum 1, success = JBool True, r_result = JStr ''done'',
            r_error = JUndefined\<rparr>
         (snd (sendCommandToExtension ''click'' (JObj []) 0 0 0 init_server))))))))
      = [JObj [(''error'', JStr ''again'')]]"
  by (simp add: command_result_def queue_get_def map_get_def sendCommandToExtension_def
      wait_check_def timeout_def init_server_def map_values_def)

theorem report_overwrites_witness:
  "map_get (commandQueue (snd (command_result
       \<lparr>commandId = JNum 4, success = JNum 0, r_result = JStr ''ignored'',
          r_error = JStr ''no such element''\<rparr>
       \<lparr>devTools = devTools init_server,
          commandQueue = [(4, \<lparr>id' = 4, action = ''click'', params = JObj [], timestamp = 10,
                               status = Completed, result = JStr ''done''\<rparr>)],
          commandIdCounter = 4\<rparr>))) 4
   = Some \<lparr>id' = 4, action = ''click'', params = JObj [], timestamp = 10, status = Error,
            result = JObj [(''error'', JStr ''no such element'')]\<rparr>"
  using report_overwrites_whatever_the_status
    [of "\<lparr>devTools = devTools init_server,
          commandQueue = [(4, \<lparr>id' = 4, action = ''click'', params = JObj [], timestamp = 10,
                               status = Completed, result = JStr ''done''\<rparr>)],
          commandIdCounter = 4\<rparr>" 4
        "\<lparr>id' = 4, action = ''click'', params = JObj [], timestamp = 10,
                               status = Completed, result = JStr ''done''\<rparr>"
        "\<lparr>commandId = JNum 4, success = JNum 0, r_result = JStr ''ignored'',
          r_error = JStr ''no such element''\<rparr>"]
  by (simp add: map_get_def)

subsection \<open>Telemetry buffers\<close>

lemma push_capped_drop:
  "0 < cap \<Longrightarrow> push_capped cap xs d = drop (Suc (length xs) - cap) (xs @ [d])"
  by (simp add: push_capped_def slice_last Let_def del: drop_append)

lemma push_capped_run:
  assumes "0 < cap" and "buf = drop (length xs - cap) xs"
  shows "push_capped cap buf d = drop (length (xs @ [d]) - cap) (xs @ [d])"
proof (cases "length xs \<le> cap")
  case True
  with assms show ?thesis by (simp add: push_capped_drop del: drop_append)
next
  case False
  then have len: "length buf = cap" using assms by simp
  have "push_capped cap buf d = drop 1 (buf @ [d])"
    using assms(1) len by (simp add: push_capped_drop del: drop_append)
  also have "buf @ [d] = drop (length xs - cap) (xs @ [d])"
    using assms(2) by simp
  also have "drop 1 (drop (length xs - cap) (xs @ [d])) = drop (length (xs @ [d]) - cap) (xs @ [d])"
    using False by (simp del: drop_append add: Suc_diff_le)
  finally show ?thesis .
qed

lemma pushes_snoc:
  "pushes (ps @ [p]) s = snd (devtools_data (fst p) (fst (snd p)) (snd (snd p)) (pushes ps s))"
proof (induction ps arbitrary: s)
  case Nil
  show ?case by (cases p) auto
next
  case (Cons q ps)
  then show ?case by (cases q) auto
qed

lemma pushed_snoc:
  "pushed ty (ps @ [p]) = (if fst p = JStr ty then pushed ty ps @ [fst (snd p)] else pushed ty ps)"
  by (simp add: pushed_def)

lemma pushes_buffers:
  assumes "length (networkRequests (devTools s)) \<le> 5000"
    and "length (consoleLogs (devTools s)) \<le> 5000"
    and "length (performanceMetrics (devTools s)) \<le> 500"
  shows "networkRequests (devTools (pushes ps s))
      = drop (length (networkRequests (devTools s) @ pushed ''network'' ps) - 5000)
          (networkRequests (devTools s) @ pushed ''network'' ps)
   \<and> consoleLogs (devTools (pushes ps s))
      = drop (length (consoleLogs (devTools s) @ pushed ''console'' ps) - 5000)
          (consoleLogs (devTools s) @ pushed ''console'' ps)
   \<and> performanceMetrics (devTools (pushes ps s))
      = drop (length (performanceMetrics (devTools s) @ pushed ''performance'' ps) - 500)
          (performanceMetrics (devTools s) @ pushed ''performance'' ps)"
proof (induction ps rule: rev_induct)
  case Nil
  from assms show ?case by (simp add: pushed_def)
next
  case (snoc p ps)
  note n = push_capped_run [of 5000 _ "networkRequests (devTools s) @ pushed ''network'' ps"
      "fst (snd p)"]
  note c = push_capped_run [of 5000 _ "consoleLogs (devTools s) @ pushed ''console'' ps"
      "fst (snd p)"]
  note m = push_capped_run [of 500 _ "performanceMetrics (devTools s) @ pushed ''performance'' ps"
      "fst (snd p)"]
  from snoc show ?case
    by (simp add: pushes_snoc pushed_snoc devtools_data_def Let_def n c m
        del: drop_append length_append)
qed

text \<open>
  Claim C5. Start from any state whose buffers are within their capacities (the initial
  state has empty buffers) and run any sequence of pushes. Each buffer then holds the last
  5000 (network, console) or 500 (performance) of the records it had and received, in the
  order of arrival, so it never exceeds its capacity and the records dropped are the
  oldest ones. In particular, 5001 network records pushed into an empty buffer leave
  exactly the last 5000 of them, the first one dropped.
\<close>

theorem telemetry_buffers_capped_oldest_first:
  assumes "length (networkRequests (devTools s)) \<le> 5000"
    and "length (consoleLogs (devTools s)) \<le> 5000"
    and "length (performanceMetrics (devTools s)) \<le> 500"
  shows "length (networkRequests (devTools (pushes ps s))) \<le> 5000
   \<and> length (consoleLogs (devTools (pushes ps s))) \<le> 5000
   \<and> length (performanceMetrics (devTools (pushes ps s))) \<le> 500
   \<and> networkRequests (devTools (pushes ps s))
      = drop (length (networkRequests (devTools s) @ pushed ''network'' ps) - 5000)
          (networkRequests (devTools s) @ pushed ''network'' ps)
   \<and> consoleLogs (devTools (pushes ps s))
      = drop (length (consoleLogs (devTools s) @ pushed ''console'' ps) - 5000)
          (consoleLogs (devTools s) @ pushed ''console'' ps)
   \<and> performanceMetrics (devTools (pushes ps s))
      = drop (length (performanceMetrics (devTools s) @ pushed ''performance'' ps) - 500)
          (performanceMetrics (devTools s) @ pushed ''performance'' ps)
   \<and> (networkRequests (devTools s) = [] \<and> length (pushed ''network'' ps) = 5001 \<longrightarrow>
        networkRequests (devTools (pushes ps s)) = drop 1 (pushed ''network'' ps)
        \<and> length (networkRequests (devTools (pushes ps s))) = 5000)"
proof -
  note b = pushes_buffers [OF assms, of ps]
  have n: "length (networkRequests (devTools (pushes ps s))) \<le> 5000"
    by (subst b [THEN conjunct1]) (simp del: length_append drop_append)
  have c: "length (consoleLogs (devTools (pushes ps s))) \<le> 5000"
    by (subst b [THEN conjunct2, THEN conjunct1]) (simp del: length_append drop_append)
  have m: "length (performanceMetrics (devTools (pushes ps s))) \<le> 500"
    by (subst b [THEN conjunct2, THEN conjunct2]) (simp del: length_append drop_append)
  have last: "networkRequests (devTools s) = [] \<and> length (pushed ''network'' ps) = 5001 \<longrightarrow>
        networkRequests (devTools (pushes ps s)) = drop 1 (pushed ''network'' ps)
        \<and> length (networkRequests (devTools (pushes ps s))) = 5000"
    by (subst (1 2) b [THEN conjunct1]) (simp del: drop_append)
  from n c m b last show ?thesis by blast
qed

theorem telemetry_buffers_witness:
  "networkRequests (devTools (pushes
      (map (\<lambda>i. (JStr ''network'', JNum (int i), ''t'')) [0..<5001]) init_server))
   = map (\<lambda>i. JNum (int i)) [1..<5001]"
proof -
  have p: "pushed ''network'' (map (\<lambda>i. (JStr ''network'', JNum (int i), ''t'')) [0..<5001])
      = map (\<lambda>i. JNum (int i)) [0..<5001]"
    by (simp add: pushed_def filter_map o_def)
  have "networkRequests (devTools (pushes
      (map (\<lambda>i. (JStr ''network'', JNum (int i), ''t'')) [0..<5001]) init_server))
      = drop 1 (map (\<lambda>i. JNum (int i)) [0..<5001])"
    using telemetry_buffers_capped_oldest_first [of init_server
        "map (\<lambda>i. (JStr ''network'', JNum (int i), ''t'')) [0..<5001]"]
    unfolding p by (simp add: init_server_def)
  then show ?thesis by (simp add: drop_map del: upt_Suc)
qed

subsection \<open>Polling\<close>

text \<open>
  Claim C6. In every state the poll endpoint answers with the commands of the queue whose
  status is pending, each reduced to its id, action and parameters, in the order of the
  queue; no command with another status is among them; and the state after the request is
  the state before it.
\<close>

theorem poll_returns_exactly_the_pending:
  "snd (poll_commands s) = s
   \<and> fst (poll_commands s) =
       map (\<lambda>cmd. \<lparr>id' = id' cmd, action = action cmd, params = params cmd\<rparr>)
         (filter (\<lambda>cmd. status cmd = Pending) (map snd (commandQueue s)))
   \<and> set (fst (poll_commands s)) =
       {\<lparr>id' = id' cmd, action = action cmd, params = params cmd\<rparr> | cmd.
          cmd \<in> set (map_values (commandQueue s)) \<and> status cmd = Pending}"
  by (auto simp: poll_commands_def map_values_def)

theorem poll_witness:
  "poll_commands
     \<lparr>devTools = devTools init_server,
        commandQueue =
          [(1, \<lparr>id' = 1, action = ''a'', params = JNull, timestamp = 0, status = Completed,
                 result = JStr ''r''\<rparr>),
           (2, \<lparr>id' = 2, action = ''b'', params = JObj [], timestamp = 5, status = Pending,
                 result = JNull\<rparr>),
           (3, \<lparr>id' = 3, action = ''c'', params = JObj [], timestamp = 9, status = Error,
                 result = JObj [(''error'', JStr ''x'')]\<rparr>)],
        commandIdCounter = 3\<rparr>
   = ([\<lparr>id' = 2, action = ''b'', params = JObj []\<rparr>],
      \<lparr>devTools = devTools init_server,
        commandQueue =
          [(1, \<lparr>id' = 1, action = ''a'', params = JNull, timestamp = 0, status = Completed,
                 result = JStr ''r''\<rparr>),
           (2, \<lparr>id' = 2, action = ''b'', params = JObj [], timestamp = 5, status = Pending,
                 result = JNull\<rparr>),
           (3, \<lparr>id' = 3, action = ''c'', params = JObj [], timestamp = 9, status = Error,
                 result = JObj [(''error'', JStr ''x'')]\<rparr>)],
        commandIdCounter = 3\<rparr>)"
  using poll_returns_exactly_the_pending
    [of "\<lparr>devTools = devTools init_server,
        commandQueue =
          [(1, \<lparr>id' = 1, action = ''a'', params = JNull, timestamp = 0, status = Completed,
                 result = JStr ''r''\<rparr>),
           (2, \<lparr>id' = 2, action = ''b'', params = JObj [], timestamp = 5, status = Pending,
                 result = JNull\<rparr>),
           (3, \<lparr>id' = 3, action = ''c'', params = JObj [], timestamp = 9, status = Error,
                 result = JObj [(''error'', JStr ''x'')]\<rparr>)],
        commandIdCounter = 3\<rparr>"]
  by (simp add: prod_eq_iff)

subsection \<open>The cleanup sweep\<close>

lemma cleanup_loop_filter:
  "cleanup_loop now es q =
     filter (\<lambda>e. \<not> (\<exists>c. (fst e, c) \<in> set es \<and> now - timestamp c > maxAge)) q"
proof (induction es arbitrary: q)
  case Nil
  then show ?case by simp
next
  case (Cons e es)
  obtain k cmd where e: "e = (k, cmd)" by (cases e)
  show ?case
    unfolding e by (auto simp: Cons.IH map_delete_def intro!: filter_cong)
qed

lemma cleanup_loop_self:
  assumes "distinct (map fst q)"
  shows "cleanup_loop now q q = filter (\<lambda>e. \<not> now - timestamp (snd e) > maxAge) q"
proof -
  have "\<And>e. e \<in> set q \<Longrightarrow>
      (\<exists>c. (fst e, c) \<in> set q \<and> now - timestamp c > maxAge) = (now - timestamp (snd e) > maxAge)"
  proof -
    fix e assume "e \<in> set q"
    then have "(fst e, snd e) \<in> set q" by simp
    with assms have "\<And>c. (fst e, c) \<in> set q \<Longrightarrow> c = snd e"
      by (meson eq_key_imp_eq_value)
    with \<open>(fst e, snd e) \<in> set q\<close>
    show "(\<exists>c. (fst e, c) \<in> set q \<and> now - timestamp c > maxAge) = (now - timestamp (snd e) > maxAge)"
      by blast
  qed
  then show ?thesis
    unfolding cleanup_loop_filter by (auto intro!: filter_cong)
qed

lemma map_get_cleanup:
  assumes "distinct (map fst (commandQueue s))"
  shows "map_get (commandQueue (cleanup now s)) k =
     (case map_get (commandQueue s) k of
        None \<Rightarrow> None
      | Some c \<Rightarrow> if now - timestamp c > maxAge then None else Some c)"
  using assms by (simp add: cleanup_def cleanup_loop_self map_get_filter split: option.splits)

text \<open>
  Claim C7. The queue is a Map, so its keys are distinct. One sweep at the clock reading
  \<open>now\<close> leaves the queue with exactly the entries whose age \<open>now - timestamp\<close> is at
  most 60000 ms, in their order and unchanged; an entry older than that is removed
  whatever its status is. Nothing else of the server state changes.
\<close>

theorem cleanup_removes_exactly_the_old:
  assumes "distinct (map fst (commandQueue s))"
  shows "cleanup now s =
           s\<lparr>commandQueue := filter (\<lambda>e. \<not> now - timestamp (snd e) > 60000) (commandQueue s)\<rparr>
    \<and> (\<forall>k. map_get (commandQueue (cleanup now s)) k =
          (case map_get (commandQueue s) k of
             None \<Rightarrow> None
           | Some c \<Rightarrow> if now - timestamp c > 60000 then None else Some c))"
proof -
  have "cleanup now s =
      s\<lparr>commandQueue := filter (\<lambda>e. \<not> now - timestamp (snd e) > 60000) (commandQueue s)\<rparr>"
    using assms by (simp add: cleanup_def cleanup_loop_self maxAge_def)
  moreover have "\<forall>k. map_get (commandQueue (cleanup now s)) k =
          (case map_get (commandQueue s) k of
             None \<Rightarrow> None
           | Some c \<Rightarrow> if now - timestamp c > 60000 then None else Some c)"
    using map_get_cleanup [OF assms, of now] unfolding maxAge_def by blast
  ultimately show ?thesis by blast
qed

theorem cleanup_witness:
  "commandQueue (cleanup 70000
     \<lparr>devTools = devTools init_server,
        commandQueue =
          [(1, \<lparr>id' = 1, action = ''a'', params = JNull, timestamp = 9999, status = Pending,
                 result = JNull\<rparr>),
           (2, \<lparr>id' = 2, action = ''b'', params = JNull, timestamp = 10000, status = Pending,
                 result = JNull\<rparr>),
           (3, \<lparr>id' = 3, action = ''c'', params = JNull, timestamp = 500, status = Completed,
                 result = JStr ''r''\<rparr>),
           (4, \<lparr>id' = 4, action = ''d'', params = JNull, timestamp = 69000, status = Error,
                 result = JObj [(''error'', JStr ''x'')]\<rparr>)],
        commandIdCounter = 4\<rparr>)
   = [(2, \<lparr>id' = 2, action = ''b'', params = JNull, timestamp = 10000, status = Pending,
             result = JNull\<rparr>),
      (4, \<lparr>id' = 4, action = ''d'', params = JNull, timestamp = 69000, status = Error,
             result = JObj [(''error'', JStr ''x'')]\<rparr>)]"
  using cleanup_removes_exactly_the_old
    [of "\<lparr>devTools = devTools init_server,
        commandQueue =
          [(1, \<lparr>id' = 1, action = ''a'', params = JNull, timestamp = 9999, status = Pending,
                 result = JNull\<rparr>),
           (2, \<lparr>id' = 2, action = ''b'', params = JNull, timestamp = 10000, status = Pending,
                 result = JNull\<rparr>),
           (3, \<lparr>id' = 3, action = ''c'', params = JNull, timestamp = 500, status = Completed,
                 result = JStr ''r''\<rparr>),
           (4, \<lparr>id' = 4, action = ''d'', params = JNull, timestamp = 69000, status = Error,
                 result = JObj [(''error'', JStr ''x'')]\<rparr>)],
        commandIdCounter = 4\<rparr>" 70000]
  by simp

subsection \<open>A limit of zero in the telemetry queries\<close>

lemma slice_50: "slice xs (- 50) = drop (length xs - 50) xs"
  using slice_last [of 50 xs] by simp

lemma slice_20: "slice xs (- 20) = drop (length xs - 20) xs"
  using slice_last [of 20 xs] by simp

text \<open>
  Claim C10. \<open>args.limit || 50\<close> takes the default when the limit is 0, so each of the
  three queries answers a limit of 0 as it answers a missing limit: with the last 50
  (network, console) or the last 20 (performance) of the records that pass the filters,
  all of them when there are fewer, and not with an empty list. When a filter throws, the
  call fails in both cases alike.
\<close>

theorem zero_limit_is_the_default:
  "get_network_requests lower (args\<lparr>limit := Some 0\<rparr>) s
        = get_network_requests lower (args\<lparr>limit := None\<rparr>) s
   \<and> get_console_logs (args\<lparr>limit := Some 0\<rparr>) s = get_console_logs (args\<lparr>limit := None\<rparr>) s
   \<and> get_performance_metrics (args\<lparr>limit := Some 0\<rparr>) s
        = get_performance_metrics (args\<lparr>limit := None\<rparr>) s
   \<and> get_network_requests lower (args\<lparr>limit := Some 0\<rparr>) s =
       (case network_filtered lower args s of
          Inl e \<Rightarrow> Inl e
        | Inr xs \<Rightarrow> Inr \<lparr> q_total = length (networkRequests (devTools s)),
                          q_count = min 50 (length xs),
                          q_tabId = tab_or_all (tab_id args),
                          q_lastUpdate = lastUpdate (devTools s),
                          q_items = drop (length xs - 50) xs \<rparr>)
   \<and> get_console_logs (args\<lparr>limit := Some 0\<rparr>) s =
       (case console_filtered args s of
          Inl e \<Rightarrow> Inl e
        | Inr xs \<Rightarrow> Inr \<lparr> q_total = length (consoleLogs (devTools s)),
                          q_count = min 50 (length xs),
                          q_tabId = tab_or_all (tab_id args),
                          q_lastUpdate = lastUpdate (devTools s),
                          q_items = drop (length xs - 50) xs \<rparr>)
   \<and> get_performance_metrics (args\<lparr>limit := Some 0\<rparr>) s =
       (case filter_tab (tab_id args) (performanceMetrics (devTools s)) of
          Inl e \<Rightarrow> Inl e
        | Inr xs \<Rightarrow> Inr \<lparr> q_total = length (performanceMetrics (devTools s)),
                          q_count = min 20 (length xs),
                          q_tabId = tab_or_all (tab_id args),
                          q_lastUpdate = lastUpdate (devTools s),
                          q_items = drop (length xs - 20) xs \<rparr>)"
  by (auto simp: get_network_requests_def get_console_logs_def get_performance_metrics_def
      network_filtered_def console_filtered_def limit_or_def slice_50 slice_20 Let_def
      split: sum.splits)

theorem zero_limit_witness:
  "get_network_requests ascii_lower
     \<lparr>limit = Some 0, tab_id = Some 3, url_filter = Some ''API'', level_filter = None\<rparr>
     (pushes
       [(JStr ''network'', JObj [(''tabId'', JNum 3), (''url'', JStr ''http://x/api/a'')], ''t1''),
        (JStr ''network'', JObj [(''tabId'', JNum 4), (''url'', JStr ''http://x/api/b'')], ''t2''),
        (JStr ''network'', JObj [(''tabId'', JNum 3), (''url'', JStr ''http://x/Api/c'')], ''t3'')]
       init_server)
   = Inr \<lparr>q_total = 3, q_count = 2, q_tabId = JNum 3, q_lastUpdate = Some ''t3'',
          q_items = [JObj [(''tabId'', JNum 3), (''url'', JStr ''http://x/api/a'')],
                     JObj [(''tabId'', JNum 3), (''url'', JStr ''http://x/Api/c'')]]\<rparr>"
proof -
  have "get_network_requests ascii_lower
     \<lparr>limit = None, tab_id = Some 3, url_filter = Some ''API'', level_filter = None\<rparr>
     (pushes
       [(JStr ''network'', JObj [(''tabId'', JNum 3), (''url'', JStr ''http://x/api/a'')], ''t1''),
        (JStr ''network'', JObj [(''tabId'', JNum 4), (''url'', JStr ''http://x/api/b'')], ''t2''),
        (JStr ''network'', JObj [(''tabId'', JNum 3), (''url'', JStr ''http://x/Api/c'')], ''t3'')]
       init_server)
   = Inr \<lparr>q_total = 3, q_count = 2, q_tabId = JNum 3, q_lastUpdate = Some ''t3'',
          q_items = [JObj [(''tabId'', JNum 3), (''url'', JStr ''http://x/api/a'')],
                     JObj [(''tabId'', JNum 3), (''url'', JStr ''http://x/Api/c'')]]\<rparr>"
    by code_simp
  with zero_limit_is_the_default
    [of ascii_lower "\<lparr>limit = None, tab_id = Some 3, url_filter = Some ''API'', level_filter = None\<rparr>"
      "pushes
       [(JStr ''network'', JObj [(''tabId'', JNum 3), (''url'', JStr ''http://x/api/a'')], ''t1''),
        (JStr ''network'', JObj [(''tabId'', JNum 4), (''url'', JStr ''http://x/api/b'')], ''t2''),
        (JStr ''network'', JObj [(''tabId'', JNum 3), (''url'', JStr ''http://x/Api/c'')], ''t3'')]
       init_server"]
  show ?thesis by simp
qed

subsection \<open>One turn of the waiting loop\<close>

lemma wait_check_queue:
  "commandQueue (snd (wait_check k st now s)) = commandQueue s
   \<or> commandQueue (snd (wait_check k st now s)) = map_delete (commandQueue s) k"
  by (simp add: wait_check_def split: option.splits)

lemma wait_check_counter [simp]:
  "commandIdCounter (snd (wait_check k st now s)) = commandIdCounter s"
  by (simp add: wait_check_def split: option.splits)

lemma wait_check_settled:
  "fst (wait_check k st now s) = Some r \<Longrightarrow>
     map_get (commandQueue (snd (wait_check k st now s))) k = None"
  by (auto simp: wait_check_def map_get_delete split: option.splits if_splits)

lemma wait_check_sleeps:
  "fst (wait_check k st now s) = None \<Longrightarrow> snd (wait_check k st now s) = s"
  by (auto simp: wait_check_def split: option.splits if_splits)

lemma wait_check_other:
  "j \<noteq> k \<Longrightarrow> map_get (commandQueue (snd (wait_check k st now s))) j = map_get (commandQueue s) j"
  using wait_check_queue [of k st now s] by (auto simp: map_get_delete)

lemma wait_check_distinct:
  "distinct (map fst (commandQueue s)) \<Longrightarrow>
     distinct (map fst (commandQueue (snd (wait_check k st now s))))"
  using wait_check_queue [of k st now s] by (auto simp: distinct_map_delete)

lemma step_Wake:
  "step (Wake k now) sy =
     (case calls sy k of
        Some (Awaiting st) \<Rightarrow>
          sy\<lparr>srv := snd (wait_check k st now (srv sy)),
             calls := (case fst (wait_check k st now (srv sy)) of
                         None \<Rightarrow> calls sy | Some r \<Rightarrow> (calls sy)(k \<mapsto> Settled r))\<rparr>
      | _ \<Rightarrow> sy)"
  by (auto split: option.splits call.splits prod.splits)

lemma step_Call:
  "step (Call act prms t0 t1 t2) sy =
     sy\<lparr>srv := snd (wait_check (commandIdCounter (srv sy) + 1) t1 t2 (enqueue act prms t0 (srv sy))),
        calls := (calls sy)(commandIdCounter (srv sy) + 1 \<mapsto>
           (case fst (wait_check (commandIdCounter (srv sy) + 1) t1 t2 (enqueue act prms t0 (srv sy))) of
              None \<Rightarrow> Awaiting t1 | Some r \<Rightarrow> Settled r))\<rparr>"
  by (simp add: sendCommandToExtension_def enqueue_def Let_def split: prod.splits)

lemma struct_inv_init: "struct_inv init_system"
  by (simp add: struct_inv_def init_system_def init_server_def)

lemma struct_inv_step:
  assumes "struct_inv sy"
  shows "struct_inv (step e sy)"
proof (cases e)
  case (Call act prms t0 t1 t2)
  let ?k = "commandIdCounter (srv sy) + 1"
  let ?s1 = "enqueue act prms t0 (srv sy)"
  have d: "distinct (map fst (commandQueue ?s1))"
    using assms by (simp add: struct_inv_def enqueue_def distinct_map_set)
  have c: "commandIdCounter ?s1 = ?k" by (simp add: enqueue_def)
  have o: "\<And>j. j \<noteq> ?k \<Longrightarrow> map_get (commandQueue ?s1) j = map_get (commandQueue (srv sy)) j"
    by (simp add: enqueue_def map_get_set)
  show ?thesis
    unfolding Call step_Call struct_inv_def
    using assms wait_check_distinct [OF d, of ?k t1 t2] wait_check_settled [of ?k t1 t2 ?s1]
    apply (simp add: c struct_inv_def)
    apply (auto simp: wait_check_other o split: option.splits)
    done
next
  case (Wake k now)
  show ?thesis
  proof (cases "calls sy k")
    case None
    then show ?thesis using assms by (simp add: Wake)
  next
    case (Some c)
    show ?thesis
    proof (cases c)
      case (Settled r)
      then show ?thesis using assms Some by (simp add: Wake)
    next
      case (Awaiting st)
      have ck: "calls sy k = Some (Awaiting st)" using Some Awaiting by simp
      then have kle: "k \<le> commandIdCounter (srv sy)" using assms by (simp add: struct_inv_def)
      let ?w = "wait_check k st now (srv sy)"
      show ?thesis
      proof (cases "fst ?w")
        case None
        then have "step e sy = sy"
          unfolding Wake step_Wake by (simp add: ck wait_check_sleeps)
        with assms show ?thesis by simp
      next
        case (Some r)
        have st: "step e sy = sy\<lparr>srv := snd ?w, calls := (calls sy)(k \<mapsto> Settled r)\<rparr>"
          unfolding Wake step_Wake by (simp add: ck Some)
        have 1: "distinct (map fst (commandQueue (snd ?w)))"
          using assms by (simp add: struct_inv_def wait_check_distinct)
        have 2: "\<forall>j. ((calls sy)(k \<mapsto> Settled r)) j \<noteq> None \<longrightarrow> j \<le> commandIdCounter (snd ?w)"
          using assms kle by (simp add: struct_inv_def)
        have 3: "\<forall>j r'. ((calls sy)(k \<mapsto> Settled r)) j = Some (Settled r') \<longrightarrow>
            map_get (commandQueue (snd ?w)) j = None"
          using assms wait_check_settled [OF Some]
          by (simp add: struct_inv_def wait_check_other)
        from 1 2 3 show ?thesis unfolding st struct_inv_def by simp
      qed
    qed
  qed
next
  case PollCommands
  then show ?thesis using assms by (simp add: struct_inv_def poll_commands_def)
next
  case (CommandResult b)
  then show ?thesis using assms
    by (auto simp: struct_inv_def command_result_def distinct_map_set map_get_set queue_get_def
        split: option.splits jsval.splits)
next
  case (Cleanup now)
  then show ?thesis using assms
    by (auto simp: struct_inv_def cleanup_def cleanup_loop_self map_get_filter distinct_map_filter)
next
  case (DevtoolsData ty d iso)
  then show ?thesis using assms by (simp add: struct_inv_def devtools_data_def Let_def)
qed

lemma wait_check_TypeErr:
  "fst (wait_check k st now s) = Some (Threw TypeErr) \<Longrightarrow>
     now - st < timeout \<and> map_get (commandQueue s) k = None"
  by (auto simp: wait_check_def split: option.splits if_splits)

lemma wait_check_None:
  "fst (wait_check k st now s) = None \<Longrightarrow>
     now - st < timeout \<and> (\<exists>c. map_get (commandQueue s) k = Some c \<and> status c = Pending)"
  by (auto simp: wait_check_def split: option.splits if_splits intro: status.exhaust)

lemma wait_check_pending:
  assumes "\<And>c. map_get (commandQueue s) k = Some c \<Longrightarrow> status c = Pending"
    and "fst (wait_check k st now s) = Some r"
  shows "r = Threw TypeErr \<or> r = Threw (Err (JStr ''Command timeout''))"
  using assms by (auto simp: wait_check_def split: option.splits if_splits)

lemma wait_check_late:
  "timeout \<le> now - st \<Longrightarrow>
     wait_check k st now s =
       (Some (Threw (Err (JStr ''Command timeout''))),
        s\<lparr>commandQueue := map_delete (commandQueue s) k\<rparr>)"
  by (simp add: wait_check_def)

lemma wait_check_completed:
  "now - st < timeout \<Longrightarrow> map_get (commandQueue s) k = Some c \<Longrightarrow> status c = Completed \<Longrightarrow>
     wait_check k st now s =
       (Some (Returned (result c)), s\<lparr>commandQueue := map_delete (commandQueue s) k\<rparr>)"
  by (simp add: wait_check_def)

lemma wait_check_error:
  "now - st < timeout \<Longrightarrow> map_get (commandQueue s) k = Some c \<Longrightarrow> status c = Error \<Longrightarrow>
     wait_check k st now s =
       (Some (Threw (Err (js_or (opt_prop (result c) ''error'') (JStr ''Command failed'')))),
        s\<lparr>commandQueue := map_delete (commandQueue s) k\<rparr>)"
  by (simp add: wait_check_def)

lemma command_result_get:
  "map_get (commandQueue (snd (command_result b s))) j =
     (case map_get (commandQueue s) j of
        None \<Rightarrow> None
      | Some c \<Rightarrow>
          Some (if commandId b = JNum j
                then c\<lparr>status := (if truthy (success b) then Completed else Error),
                       result := (if truthy (success b) then r_result b
                                  else JObj [(''error'', r_error b)])\<rparr>
                else c))"
  by (auto simp: command_result_def queue_get_def map_get_set split: option.splits jsval.splits)

lemma clock_snoc: "clock (evs @ [e]) = clock evs @ readings e"
  by (simp add: clock_def)

lemma steady_snoc:
  "steady_clock (evs @ [e]) \<Longrightarrow>
     steady_clock evs \<and> sorted (readings e)
     \<and> (\<forall>t\<in>set (clock evs). \<forall>t'\<in>set (readings e). t \<le> t')"
  by (auto simp: steady_clock_def clock_snoc sorted_append)

lemma run_snoc: "run (evs @ [e]) sy = step e (run evs sy)"
  by (simp add: run_def)

lemma enqueue_get:
  "map_get (commandQueue (enqueue act prms t0 s)) j =
     (if j = commandIdCounter s + 1
      then Some \<lparr> id' = commandIdCounter s + 1, action = act,
            params = (if prms = JUndefined then JObj [] else prms),
            timestamp = t0, status = Pending, result = JNull \<rparr>
      else map_get (commandQueue s) j)"
  by (simp add: enqueue_def map_get_set)

subsection \<open>Invariants along a run\<close>

lemma timing_inv_mono:
  assumes "timing_inv evs sy"
    and "calls sy' = calls sy"
    and "\<And>j. map_get (commandQueue (srv sy')) j = map_get (commandQueue (srv sy)) j"
  shows "timing_inv (evs @ [e]) sy'"
proof -
  have "set (clock evs) \<subseteq> set (clock (evs @ [e]))" by (simp add: clock_snoc)
  with assms(1) show ?thesis
    unfolding timing_inv_def assms(2,3) by blast
qed

lemma timing_inv_step:
  assumes T: "timing_inv evs sy" and S: "struct_inv sy"
    and clk: "steady_clock (evs @ [e])" and pr: "prompt e"
  shows "timing_inv (evs @ [e]) (step e sy)"
proof (cases e)
  case PollCommands
  show ?thesis
    by (rule timing_inv_mono [OF T]) (simp_all add: PollCommands poll_commands_def)
next
  case (DevtoolsData ty d iso)
  show ?thesis
    by (rule timing_inv_mono [OF T]) (simp_all add: DevtoolsData devtools_data_def Let_def)
next
  case (CommandResult b)
  have c: "calls (step e sy) = calls sy" by (simp add: CommandResult)
  have q: "\<And>j. map_get (commandQueue (srv (step e sy))) j =
      (case map_get (commandQueue (srv sy)) j of
        None \<Rightarrow> None
      | Some c \<Rightarrow>
          Some (if commandId b = JNum j
                then c\<lparr>status := (if truthy (success b) then Completed else Error),
                       result := (if truthy (success b) then r_result b
                                  else JObj [(''error'', r_error b)])\<rparr>
                else c))"
    by (simp add: CommandResult command_result_get)
  show ?thesis
    unfolding timing_inv_def c q clock_snoc
    using T unfolding timing_inv_def by (auto split: option.splits) fastforce+
next
  case (Cleanup now)
  have c: "calls (step e sy) = calls sy" by (simp add: Cleanup)
  have q: "\<And>j. map_get (commandQueue (srv (step e sy))) j =
      (case map_get (commandQueue (srv sy)) j of
        None \<Rightarrow> None
      | Some c \<Rightarrow> if now - timestamp c > maxAge then None else Some c)"
    using S by (simp add: Cleanup map_get_cleanup struct_inv_def)
  have r: "clock (evs @ [e]) = clock evs @ [now]" by (simp add: clock_snoc Cleanup)
  show ?thesis
    unfolding timing_inv_def c q r
  proof (intro conjI allI impI)
    fix j st assume a: "calls sy j = Some (Awaiting st)"
    from T a consider c where "map_get (commandQueue (srv sy)) j = Some c"
        "st - timestamp c \<le> maxAge - timeout"
      | t where "t \<in> set (clock evs)" "timeout \<le> t - st"
      unfolding timing_inv_def by blast
    then show "(\<exists>c. (case map_get (commandQueue (srv sy)) j of None \<Rightarrow> None
                     | Some c \<Rightarrow> if maxAge < now - timestamp c then None else Some c) = Some c
                  \<and> st - timestamp c \<le> maxAge - timeout)
            \<or> (\<exists>t\<in>set (clock evs @ [now]). timeout \<le> t - st)"
    proof cases
      case 1
      show ?thesis
      proof (cases "maxAge < now - timestamp c")
        case True
        with 1 have "timeout \<le> now - st" by linarith
        then show ?thesis by auto
      next
        case False
        with 1 show ?thesis by auto
      qed
    next
      case 2
      then show ?thesis by auto
    qed
  next
    fix j show "calls sy j \<noteq> Some (Settled (Threw TypeErr))"
      using T unfolding timing_inv_def by blast
  qed
next
  case (Wake k now)
  show ?thesis
  proof (cases "\<exists>st. calls sy k = Some (Awaiting st)")
    case False
    then have "step e sy = sy"
      by (auto simp: Wake split: option.splits call.splits)
    then show ?thesis
      using timing_inv_mono [OF T, of sy e] by simp
  next
    case True
    then obtain st where ck: "calls sy k = Some (Awaiting st)" by blast
    let ?w = "wait_check k st now (srv sy)"
    show ?thesis
    proof (cases "fst ?w")
      case None
      then have "step e sy = sy"
        unfolding Wake step_Wake by (simp add: ck wait_check_sleeps)
      then show ?thesis
        using timing_inv_mono [OF T, of sy e] by simp
    next
      case (Some r)
      have st: "step e sy = sy\<lparr>srv := snd ?w, calls := (calls sy)(k \<mapsto> Settled r)\<rparr>"
        unfolding Wake step_Wake by (simp add: ck Some)
      have r: "r \<noteq> Threw TypeErr"
      proof
        assume "r = Threw TypeErr"
        with Some wait_check_TypeErr [of k st now "srv sy"]
        have lt: "now - st < timeout" and no: "map_get (commandQueue (srv sy)) k = None"
          by simp_all
        from T ck no obtain t where t: "t \<in> set (clock evs)" "timeout \<le> t - st"
          unfolding timing_inv_def by fastforce
        from steady_snoc [OF clk] t have "t \<le> now" by (simp add: Wake)
        with t lt show False by linarith
      qed
      have o: "\<And>j. j \<noteq> k \<Longrightarrow>
          map_get (commandQueue (snd ?w)) j = map_get (commandQueue (srv sy)) j"
        by (simp add: wait_check_other)
      have 1: "\<forall>j st'. calls (step e sy) j = Some (Awaiting st') \<longrightarrow>
        (\<exists>c. map_get (commandQueue (srv (step e sy))) j = Some c
              \<and> st' - timestamp c \<le> maxAge - timeout)
        \<or> (\<exists>t\<in>set (clock evs @ readings e). timeout \<le> t - st')"
      proof (intro allI impI)
        fix j st' assume a: "calls (step e sy) j = Some (Awaiting st')"
        then have jk: "j \<noteq> k" and "calls sy j = Some (Awaiting st')"
          unfolding st by (auto split: if_splits)
        with T have "(\<exists>c. map_get (commandQueue (srv sy)) j = Some c
              \<and> st' - timestamp c \<le> maxAge - timeout)
          \<or> (\<exists>t\<in>set (clock evs). timeout \<le> t - st')"
          unfolding timing_inv_def by blast
        with o [OF jk] show "(\<exists>c. map_get (commandQueue (srv (step e sy))) j = Some c
              \<and> st' - timestamp c \<le> maxAge - timeout)
          \<or> (\<exists>t\<in>set (clock evs @ readings e). timeout \<le> t - st')"
          unfolding st by auto
      qed
      have 2: "\<forall>j. calls (step e sy) j \<noteq> Some (Settled (Threw TypeErr))"
        using T r unfolding st timing_inv_def by simp
      from 1 2 show ?thesis unfolding timing_inv_def clock_snoc by blast
    qed
  qed
next
  case (Call act prms t0 t1 t2)
  let ?k = "commandIdCounter (srv sy) + 1"
  let ?s1 = "enqueue act prms t0 (srv sy)"
  let ?w = "wait_check ?k t1 t2 ?s1"
  have fresh: "calls sy ?k = None"
    using S unfolding struct_inv_def by force
  have other: "\<And>j. j \<noteq> ?k \<Longrightarrow>
      map_get (commandQueue (snd ?w)) j = map_get (commandQueue (srv sy)) j"
    by (simp add: wait_check_other enqueue_get)
  have notype: "fst ?w \<noteq> Some (Threw TypeErr)"
    using wait_check_TypeErr [of ?k t1 t2 ?s1] by (auto simp: enqueue_get)
  have new: "fst ?w = None \<Longrightarrow>
      \<exists>c. map_get (commandQueue (snd ?w)) ?k = Some c \<and> t1 - timestamp c \<le> maxAge - timeout"
    using pr by (simp add: wait_check_sleeps enqueue_get Call)
  have 1: "\<forall>j st. calls (step e sy) j = Some (Awaiting st) \<longrightarrow>
        (\<exists>c. map_get (commandQueue (srv (step e sy))) j = Some c \<and> st - timestamp c \<le> maxAge - timeout)
        \<or> (\<exists>t\<in>set (clock evs @ readings e). timeout \<le> t - st)"
  proof (intro allI impI)
    fix j st assume a: "calls (step e sy) j = Some (Awaiting st)"
    show "(\<exists>c. map_get (commandQueue (srv (step e sy))) j = Some c \<and> st - timestamp c \<le> maxAge - timeout)
        \<or> (\<exists>t\<in>set (clock evs @ readings e). timeout \<le> t - st)"
    proof (cases "j = ?k")
      case True
      with a have "fst ?w = None" "st = t1"
        unfolding Call step_Call by (auto split: option.splits)
      with new True show ?thesis
        unfolding Call step_Call by auto
    next
      case False
      with a have "calls sy j = Some (Awaiting st)"
        unfolding Call step_Call by simp
      with T have "(\<exists>c. map_get (commandQueue (srv sy)) j = Some c \<and> st - timestamp c \<le> maxAge - timeout)
        \<or> (\<exists>t\<in>set (clock evs). timeout \<le> t - st)"
        unfolding timing_inv_def by blast
      with False other show ?thesis
        unfolding Call step_Call by auto
    qed
  qed
  have 2: "\<forall>j. calls (step e sy) j \<noteq> Some (Settled (Threw TypeErr))"
    using T notype unfolding Call step_Call timing_inv_def
    by (auto split: option.splits)
  from 1 2 show ?thesis unfolding timing_inv_def clock_snoc by blast
qed

lemma report_inv_mono:
  assumes "report_inv evs sy"
    and "calls sy' = calls sy"
    and "\<And>j. map_get (commandQueue (srv sy')) j = map_get (commandQueue (srv sy)) j"
  shows "report_inv (evs @ [e]) sy'"
  using assms(1) unfolding report_inv_def assms(2,3) by simp

lemma report_inv_step:
  assumes P: "report_inv evs sy" and S: "struct_inv sy"
    and T': "timing_inv (evs @ [e]) (step e sy)"
  shows "report_inv (evs @ [e]) (step e sy)"
proof (cases e)
  case PollCommands
  show ?thesis
    by (rule report_inv_mono [OF P]) (simp_all add: PollCommands poll_commands_def)
next
  case (DevtoolsData ty d iso)
  show ?thesis
    by (rule report_inv_mono [OF P]) (simp_all add: DevtoolsData devtools_data_def Let_def)
next
  case (CommandResult b)
  have c: "calls (step e sy) = calls sy" by (simp add: CommandResult)
  have q: "\<And>j. map_get (commandQueue (srv (step e sy))) j =
      (case map_get (commandQueue (srv sy)) j of
        None \<Rightarrow> None
      | Some c \<Rightarrow>
          Some (if commandId b = JNum j
                then c\<lparr>status := (if truthy (success b) then Completed else Error),
                       result := (if truthy (success b) then r_result b
                                  else JObj [(''error'', r_error b)])\<rparr>
                else c))"
    by (simp add: CommandResult command_result_get)
  have 1: "\<forall>j c. map_get (commandQueue (srv (step e sy))) j = Some c \<longrightarrow>
      (\<forall>e'\<in>set (evs @ [e]). \<not> reports_for j e') \<longrightarrow> status c = Pending"
  proof (intro allI impI)
    fix j c assume a: "map_get (commandQueue (srv (step e sy))) j = Some c"
      and n: "\<forall>e'\<in>set (evs @ [e]). \<not> reports_for j e'"
    from n have nb: "commandId b \<noteq> JNum j" and ne: "\<forall>e'\<in>set evs. \<not> reports_for j e'"
      by (simp_all add: CommandResult)
    from a nb have "map_get (commandQueue (srv sy)) j = Some c"
      unfolding q by (simp split: option.splits)
    with P ne show "status c = Pending" unfolding report_inv_def by blast
  qed
  have 2: "\<forall>j r. calls (step e sy) j = Some (Settled r) \<longrightarrow>
      (\<forall>e'\<in>set (evs @ [e]). \<not> reports_for j e') \<longrightarrow> r = Threw (Err (JStr ''Command timeout''))"
    using P unfolding c report_inv_def by simp
  from 1 2 show ?thesis unfolding report_inv_def by blast
next
  case (Cleanup now)
  have c: "calls (step e sy) = calls sy" by (simp add: Cleanup)
  have q: "\<And>j. map_get (commandQueue (srv (step e sy))) j =
      (case map_get (commandQueue (srv sy)) j of
        None \<Rightarrow> None
      | Some c \<Rightarrow> if now - timestamp c > maxAge then None else Some c)"
    using S by (simp add: Cleanup map_get_cleanup struct_inv_def)
  have 1: "\<forall>j c. map_get (commandQueue (srv (step e sy))) j = Some c \<longrightarrow>
      (\<forall>e'\<in>set (evs @ [e]). \<not> reports_for j e') \<longrightarrow> status c = Pending"
  proof (intro allI impI)
    fix j c assume a: "map_get (commandQueue (srv (step e sy))) j = Some c"
      and n: "\<forall>e'\<in>set (evs @ [e]). \<not> reports_for j e'"
    from a have "map_get (commandQueue (srv sy)) j = Some c"
      unfolding q by (simp split: option.splits if_splits)
    with P n show "status c = Pending" unfolding report_inv_def by simp
  qed
  have 2: "\<forall>j r. calls (step e sy) j = Some (Settled r) \<longrightarrow>
      (\<forall>e'\<in>set (evs @ [e]). \<not> reports_for j e') \<longrightarrow> r = Threw (Err (JStr ''Command timeout''))"
    using P unfolding c report_inv_def by simp
  from 1 2 show ?thesis unfolding report_inv_def by blast
next
  case (Wake k now)
  show ?thesis
  proof (cases "\<exists>st. calls sy k = Some (Awaiting st)")
    case False
    then have "step e sy = sy"
      by (auto simp: Wake split: option.splits call.splits)
    then show ?thesis
      using report_inv_mono [OF P, of sy e] by simp
  next
    case True
    then obtain st where ck: "calls sy k = Some (Awaiting st)" by blast
    let ?w = "wait_check k st now (srv sy)"
    show ?thesis
    proof (cases "fst ?w")
      case None
      then have "step e sy = sy"
        unfolding Wake step_Wake by (simp add: ck wait_check_sleeps)
      then show ?thesis
        using report_inv_mono [OF P, of sy e] by simp
    next
      case (Some r)
      have st: "step e sy = sy\<lparr>srv := snd ?w, calls := (calls sy)(k \<mapsto> Settled r)\<rparr>"
        unfolding Wake step_Wake by (simp add: ck Some)
      have r: "r \<noteq> Threw TypeErr"
        using T' unfolding st timing_inv_def by (auto split: if_splits)
      have o: "\<And>j. j \<noteq> k \<Longrightarrow>
          map_get (commandQueue (snd ?w)) j = map_get (commandQueue (srv sy)) j"
        by (simp add: wait_check_other)
      have gone: "map_get (commandQueue (snd ?w)) k = None"
        using wait_check_settled [OF Some] .
      have 1: "\<forall>j c. map_get (commandQueue (srv (step e sy))) j = Some c \<longrightarrow>
        (\<forall>e'\<in>set (evs @ [e]). \<not> reports_for j e') \<longrightarrow> status c = Pending"
      proof (intro allI impI)
        fix j c assume a: "map_get (commandQueue (srv (step e sy))) j = Some c"
          and n: "\<forall>e'\<in>set (evs @ [e]). \<not> reports_for j e'"
        from a gone have jk: "j \<noteq> k" unfolding st by auto
        with a o have "map_get (commandQueue (srv sy)) j = Some c" unfolding st by simp
        with P n show "status c = Pending" unfolding report_inv_def by simp
      qed
      have 2: "\<forall>j r'. calls (step e sy) j = Some (Settled r') \<longrightarrow>
        (\<forall>e'\<in>set (evs @ [e]). \<not> reports_for j e') \<longrightarrow> r' = Threw (Err (JStr ''Command timeout''))"
      proof (intro allI impI)
        fix j r' assume a: "calls (step e sy) j = Some (Settled r')"
          and n: "\<forall>e'\<in>set (evs @ [e]). \<not> reports_for j e'"
        show "r' = Threw (Err (JStr ''Command timeout''))"
        proof (cases "j = k")
          case True
          with a have rr: "r' = r" unfolding st by simp
          have "\<And>c. map_get (commandQueue (srv sy)) k = Some c \<Longrightarrow> status c = Pending"
            using P n True unfolding report_inv_def by simp
          from wait_check_pending [OF this Some] r rr show ?thesis by simp
        next
          case False
          with a have "calls sy j = Some (Settled r')" unfolding st by simp
          with P n show ?thesis unfolding report_inv_def by simp
        qed
      qed
      from 1 2 show ?thesis unfolding report_inv_def by blast
    qed
  qed
next
  case (Call act prms t0 t1 t2)
  let ?k = "commandIdCounter (srv sy) + 1"
  let ?s1 = "enqueue act prms t0 (srv sy)"
  let ?w = "wait_check ?k t1 t2 ?s1"
  have other: "\<And>j. j \<noteq> ?k \<Longrightarrow>
      map_get (commandQueue (snd ?w)) j = map_get (commandQueue (srv sy)) j"
    by (simp add: wait_check_other enqueue_get)
  have pend: "\<And>c. map_get (commandQueue ?s1) ?k = Some c \<Longrightarrow> status c = Pending"
    by (auto simp: enqueue_get)
  have new: "\<And>c. map_get (commandQueue (snd ?w)) ?k = Some c \<Longrightarrow> status c = Pending"
    using wait_check_queue [of ?k t1 t2 ?s1] pend by (auto simp: map_get_delete)
  have 1: "\<forall>j c. map_get (commandQueue (srv (step e sy))) j = Some c \<longrightarrow>
      (\<forall>e'\<in>set (evs @ [e]). \<not> reports_for j e') \<longrightarrow> status c = Pending"
  proof (intro allI impI)
    fix j c assume a: "map_get (commandQueue (srv (step e sy))) j = Some c"
      and n: "\<forall>e'\<in>set (evs @ [e]). \<not> reports_for j e'"
    show "status c = Pending"
    proof (cases "j = ?k")
      case True
      with a new show ?thesis unfolding Call step_Call by simp
    next
      case False
      with a other have "map_get (commandQueue (srv sy)) j = Some c"
        unfolding Call step_Call by simp
      with P n show ?thesis unfolding report_inv_def by simp
    qed
  qed
  have 2: "\<forall>j r'. calls (step e sy) j = Some (Settled r') \<longrightarrow>
      (\<forall>e'\<in>set (evs @ [e]). \<not> reports_for j e') \<longrightarrow> r' = Threw (Err (JStr ''Command timeout''))"
  proof (intro allI impI)
    fix j r' assume a: "calls (step e sy) j = Some (Settled r')"
      and n: "\<forall>e'\<in>set (evs @ [e]). \<not> reports_for j e'"
    show "r' = Threw (Err (JStr ''Command timeout''))"
    proof (cases "j = ?k")
      case True
      with a have f: "fst ?w = Some r'"
        unfolding Call step_Call by (auto split: option.splits)
      have "r' \<noteq> Threw TypeErr"
        using T' a True unfolding timing_inv_def by auto
      with wait_check_pending [OF pend f] show ?thesis by simp
    next
      case False
      with a have "calls sy j = Some (Settled r')" unfolding Call step_Call by simp
      with P n show ?thesis unfolding report_inv_def by simp
    qed
  qed
  from 1 2 show ?thesis unfolding report_inv_def by blast
qed

lemma reachable_inv:
  assumes "steady_clock evs" and "\<forall>e\<in>set evs. prompt e"
  shows "struct_inv (run evs init_system) \<and> timing_inv evs (run evs init_system)
     \<and> report_inv evs (run evs init_system)"
  using assms
proof (induction evs rule: rev_induct)
  case Nil
  have "timing_inv [] init_system" "report_inv [] init_system"
    by (simp_all add: timing_inv_def report_inv_def init_system_def init_server_def map_get_def)
  with struct_inv_init show ?case by (simp add: run_def)
next
  case (snoc e evs)
  from snoc.prems steady_snoc [of evs e]
  have ih: "struct_inv (run evs init_system)" "timing_inv evs (run evs init_system)"
      "report_inv evs (run evs init_system)"
    using snoc.IH by auto
  have s: "struct_inv (run (evs @ [e]) init_system)"
    unfolding run_snoc by (rule struct_inv_step [OF ih(1)])
  have t: "timing_inv (evs @ [e]) (run (evs @ [e]) init_system)"
    unfolding run_snoc using snoc.prems by (intro timing_inv_step ih) auto
  have r: "report_inv (evs @ [e]) (run (evs @ [e]) init_system)"
    using t unfolding run_snoc by (intro report_inv_step ih)
  from s t r show ?case by blast
qed

subsection \<open>From a report to the next wake-up\<close>

lemma frame_step:
  assumes S: "struct_inv sy" and ck: "calls sy k = Some (Awaiting st)"
    and q: "map_get (commandQueue (srv sy)) k = Some c"
    and nr: "\<not> reports_for k e" and nw: "\<not> wakes k e"
    and young: "\<forall>t\<in>set (readings e). t - timestamp c \<le> maxAge"
  shows "calls (step e sy) k = Some (Awaiting st)
     \<and> map_get (commandQueue (srv (step e sy))) k = Some c"
proof (cases e)
  case PollCommands
  with ck q show ?thesis by (simp add: poll_commands_def)
next
  case (DevtoolsData ty d iso)
  with ck q show ?thesis by (simp add: devtools_data_def Let_def)
next
  case (CommandResult b)
  with nr have "commandId b \<noteq> JNum k" by simp
  with ck q show ?thesis by (simp add: CommandResult command_result_get)
next
  case (Cleanup now)
  with young have "\<not> now - timestamp c > maxAge" by simp
  with ck q S show ?thesis
    by (simp add: Cleanup map_get_cleanup struct_inv_def)
next
  case (Wake k' now)
  with nw have kk: "k \<noteq> k'" by simp
  show ?thesis
  proof (cases "\<exists>st'. calls sy k' = Some (Awaiting st')")
    case False
    then have "step e sy = sy"
      by (auto simp: Wake split: option.splits call.splits)
    with ck q show ?thesis by simp
  next
    case True
    then obtain st' where ck': "calls sy k' = Some (Awaiting st')" by blast
    show ?thesis
      unfolding Wake step_Wake using ck q kk
      by (simp add: ck' wait_check_other split: option.splits)
  qed
next
  case (Call act prms t0 t1 t2)
  from S ck have "k \<le> commandIdCounter (srv sy)" unfolding struct_inv_def by simp
  then have kk: "k \<noteq> commandIdCounter (srv sy) + 1" by simp
  show ?thesis
    unfolding Call step_Call using ck q kk
    by (simp add: wait_check_other enqueue_get)
qed

lemma run_Cons: "run (e # evs) sy = run evs (step e sy)"
  by (simp add: run_def)

lemma frame_run:
  assumes "struct_inv sy" and "calls sy k = Some (Awaiting st)"
    and "map_get (commandQueue (srv sy)) k = Some c"
    and "\<forall>e\<in>set evs. \<not> reports_for k e \<and> \<not> wakes k e"
    and "\<forall>t\<in>set (clock evs). t - timestamp c \<le> maxAge"
  shows "struct_inv (run evs sy) \<and> calls (run evs sy) k = Some (Awaiting st)
     \<and> map_get (commandQueue (srv (run evs sy))) k = Some c"
  using assms
proof (induction evs arbitrary: sy)
  case Nil
  then show ?case by (simp add: run_def)
next
  case (Cons e evs)
  have f: "calls (step e sy) k = Some (Awaiting st)
     \<and> map_get (commandQueue (srv (step e sy))) k = Some c"
    using Cons.prems by (intro frame_step) (auto simp: clock_def)
  have s: "struct_inv (step e sy)" using Cons.prems(1) by (rule struct_inv_step)
  show ?case
    unfolding run_Cons using Cons.prems f s
    by (intro Cons.IH) (auto simp: clock_def)
qed

lemma run_append: "run (xs @ ys) sy = run ys (run xs sy)"
  by (simp add: run_def)

lemma clock_append: "clock (xs @ ys) = clock xs @ clock ys"
  by (simp add: clock_def)

text \<open>A report for a waiting call, then other events, up to the next wake-up of the call.\<close>

lemma report_kept_until_wake:
  assumes clk: "steady_clock (pre @ [CommandResult b] @ mid @ [Wake k now])"
    and pr: "\<forall>e\<in>set pre. prompt e"
    and ck: "calls (run pre init_system) k = Some (Awaiting st)"
    and b: "commandId b = JNum k"
    and mid: "\<forall>e\<in>set mid. \<not> reports_for k e \<and> \<not> wakes k e"
    and lt: "now - st < timeout"
  shows "\<exists>c. calls (run (pre @ [CommandResult b] @ mid) init_system) k = Some (Awaiting st)
     \<and> map_get (commandQueue (srv (run (pre @ [CommandResult b] @ mid) init_system))) k =
         Some (c\<lparr>status := (if truthy (success b) then Completed else Error),
                 result := (if truthy (success b) then r_result b
                            else JObj [(''error'', r_error b)])\<rparr>)"
proof -
  let ?sy0 = "run pre init_system"
  let ?sy1 = "step (CommandResult b) ?sy0"
  have sorted: "sorted (clock pre @ clock mid @ [now])"
    using clk by (simp add: steady_clock_def clock_def)
  then have pre_le: "\<forall>t\<in>set (clock pre). t \<le> now" and mid_le: "\<forall>t\<in>set (clock mid). t \<le> now"
    and spre: "steady_clock pre"
    by (auto simp: sorted_append steady_clock_def)
  from reachable_inv [OF spre pr]
  have S0: "struct_inv ?sy0" and T0: "timing_inv pre ?sy0" by simp_all
  from T0 ck pre_le lt obtain c where
    c: "map_get (commandQueue (srv ?sy0)) k = Some c" "st - timestamp c \<le> maxAge - timeout"
    unfolding timing_inv_def by fastforce
  let ?c' = "c\<lparr>status := (if truthy (success b) then Completed else Error),
                 result := (if truthy (success b) then r_result b
                            else JObj [(''error'', r_error b)])\<rparr>"
  have S1: "struct_inv ?sy1" using S0 by (rule struct_inv_step)
  have ck1: "calls ?sy1 k = Some (Awaiting st)" using ck by simp
  have q1: "map_get (commandQueue (srv ?sy1)) k = Some ?c'"
    using c(1) b by (simp add: command_result_get)
  have young: "\<forall>t\<in>set (clock mid). t - timestamp ?c' \<le> maxAge"
  proof
    fix t assume "t \<in> set (clock mid)"
    with mid_le have "t \<le> now" by blast
    with lt c(2) show "t - timestamp ?c' \<le> maxAge" by simp
  qed
  from frame_run [OF S1 ck1 q1 mid young]
  show ?thesis
    by (auto simp: run_append run_Cons run_def)
qed

lemma wake_settles:
  assumes "calls sy k = Some (Awaiting st)" and "wait_check k st now (srv sy) = (Some r, s')"
  shows "calls (step (Wake k now) sy) k = Some (Settled r)"
    and "srv (step (Wake k now) sy) = s'"
  using assms by simp_all

subsection \<open>Success reports\<close>

text \<open>
  Claim C3, as the code has it. The call sees a report only when it wakes up, and it tests
  the deadline before it looks at the command. Take a run in which the readings of the
  clock never decrease and in which every call started before the report has read its
  timestamp and its start time at most 30000 ms apart. If the peer reports success for a
  waiting call, and the call next wakes up with less than 30000 ms on the clock since its
  start, no other report for the id having come in between, then the call returns exactly
  the reported payload and its id is no longer in the queue.
\<close>

theorem observed_success_is_returned:
  assumes "steady_clock (pre @ [CommandResult b] @ mid @ [Wake k now])"
    and "\<forall>e\<in>set pre. prompt e"
    and "calls (run pre init_system) k = Some (Awaiting st)"
    and "commandId b = JNum k" and "truthy (success b)"
    and "\<forall>e\<in>set mid. \<not> reports_for k e \<and> \<not> wakes k e"
    and "now - st < timeout"
  shows "calls (run (pre @ [CommandResult b] @ mid @ [Wake k now]) init_system) k
           = Some (Settled (Returned (r_result b)))
     \<and> k \<notin> map_keys (commandQueue (srv (run (pre @ [CommandResult b] @ mid @ [Wake k now])
            init_system)))"
proof -
  let ?sy = "run (pre @ [CommandResult b] @ mid) init_system"
  from report_kept_until_wake [OF assms(1-4) assms(6,7)] assms(5)
  obtain c where ck: "calls ?sy k = Some (Awaiting st)"
    and q: "map_get (commandQueue (srv ?sy)) k = Some (c\<lparr>status := Completed, result := r_result b\<rparr>)"
    by auto
  have w: "wait_check k st now (srv ?sy) =
      (Some (Returned (r_result b)), (srv ?sy)\<lparr>commandQueue := map_delete (commandQueue (srv ?sy)) k\<rparr>)"
    using wait_check_completed [OF assms(7) q] by simp
  have r: "run (pre @ [CommandResult b] @ mid @ [Wake k now]) init_system = step (Wake k now) ?sy"
    by (simp add: run_def)
  show ?thesis
    unfolding r using wake_settles [OF ck w]
    by (simp add: map_get_None_iff [symmetric] map_get_delete)
qed

text \<open>
  As the claim is written it fails. A success reported at 29950 ms, after the last
  wake-up before the deadline, is never read: the next wake-up is past the deadline and
  the call throws the timeout. A success followed by a failure report for the same
  id, before the call wakes up, makes the call throw. When a call reads its timestamp at
  0 and its start time at 40000, a sweep at 60001 removes the reported command and the
  wake-up at 60100, within the deadline, fails on the missing command. The same happens
  when the clock runs backwards: a sweep that reads 60001 and then a wake-up that reads
  100.
\<close>

theorem late_success_report_is_lost:
  "calls (run [Call ''click_element'' (JObj []) 0 0 0, Wake 1 29950,
       CommandResult \<lparr>commandId = JNum 1, success = JBool True,
          r_result = JObj [(''clicked'', JBool True)], r_error = JUndefined\<rparr>,
       Wake 1 30050] init_system) 1
     = Some (Settled (Threw (Err (JStr ''Command timeout''))))
   \<and> calls (run [Call ''click_element'' (JObj []) 0 0 0,
       CommandResult \<lparr>commandId = JNum 1, success = JBool True,
          r_result = JObj [(''clicked'', JBool True)], r_error = JUndefined\<rparr>,
       CommandResult \<lparr>commandId = JNum 1, success = JBool False,
          r_result = JUndefined, r_error = JStr ''again''\<rparr>,
       Wake 1 100] init_system) 1
     = Some (Settled (Threw (Err (JStr ''again''))))
   \<and> calls (run [Call ''click_element'' (JObj []) 0 40000 40000,
       CommandResult \<lparr>commandId = JNum 1, success = JBool True,
          r_result = JObj [(''clicked'', JBool True)], r_error = JUndefined\<rparr>,
       Cleanup 60001, Wake 1 60100] init_system) 1
     = Some (Settled (Threw TypeErr))
   \<and> calls (run [Call ''click_element'' (JObj []) 0 0 0,
       CommandResult \<lparr>commandId = JNum 1, success = JBool True,
          r_result = JObj [(''clicked'', JBool True)], r_error = JUndefined\<rparr>,
       Cleanup 60001, Wake 1 100] init_system) 1
     = Some (Settled (Threw TypeErr))"
  by code_simp

theorem observed_success_witness:
  "calls (run ([Call ''click_element'' (JObj [(''selector'', JStr ''#go'')]) 0 0 0, Wake 1 100,
         PollCommands]
       @ [CommandResult \<lparr>commandId = JNum 1, success = JBool True,
             r_result = JObj [(''clicked'', JBool True)], r_error = JUndefined\<rparr>]
       @ [PollCommands, Cleanup 750] @ [Wake 1 800]) init_system) 1
     = Some (Settled (Returned (JObj [(''clicked'', JBool True)])))
   \<and> 1 \<notin> map_keys (commandQueue (srv (run
       ([Call ''click_element'' (JObj [(''selector'', JStr ''#go'')]) 0 0 0, Wake 1 100,
         PollCommands]
       @ [CommandResult \<lparr>commandId = JNum 1, success = JBool True,
             r_result = JObj [(''clicked'', JBool True)], r_error = JUndefined\<rparr>]
       @ [PollCommands, Cleanup 750] @ [Wake 1 800]) init_system)))"
proof -
  have s: "steady_clock ([Call ''click_element'' (JObj [(''selector'', JStr ''#go'')]) 0 0 0,
         Wake 1 100, PollCommands]
       @ [CommandResult \<lparr>commandId = JNum 1, success = JBool True,
             r_result = JObj [(''clicked'', JBool True)], r_error = JUndefined\<rparr>]
       @ [PollCommands, Cleanup 750] @ [Wake 1 800])"
    by (simp add: steady_clock_def clock_def)
  have p: "\<forall>e\<in>set [Call ''click_element'' (JObj [(''selector'', JStr ''#go'')]) 0 0 0,
         Wake 1 100, PollCommands]. prompt e"
    by (simp add: maxAge_def timeout_def)
  have a: "calls (run [Call ''click_element'' (JObj [(''selector'', JStr ''#go'')]) 0 0 0,
         Wake 1 100, PollCommands] init_system) 1 = Some (Awaiting 0)"
    by code_simp
  have m: "\<forall>e\<in>set [PollCommands, Cleanup 750]. \<not> reports_for 1 e \<and> \<not> wakes 1 e"
    by simp
  have l: "(800::int) - 0 < timeout" by (simp add: timeout_def)
  have i: "commandId \<lparr>commandId = JNum 1, success = JBool True,
             r_result = JObj [(''clicked'', JBool True)], r_error = JUndefined\<rparr> = JNum 1"
    by simp
  have t: "truthy (success \<lparr>commandId = JNum 1, success = JBool True,
             r_result = JObj [(''clicked'', JBool True)], r_error = JUndefined\<rparr>)"
    by simp
  from observed_success_is_returned [OF s p a i t m l] show ?thesis by simp
qed

subsection \<open>Failure reports\<close>

text \<open>
  Claim C8, as the code has it. Take a run in which the readings of the clock never
  decrease and in which every call started before the report has read its timestamp and
  its start time at most 30000 ms apart. If the peer reports failure for a waiting call,
  and the call next wakes up with less than 30000 ms on the clock since its start, no
  other report for the id having come in between, then the call throws
  \<open>new Error(error)\<close> with the reported \<open>error\<close> field when that field is truthy, so
  a non-empty string is carried unchanged, and \<open>new Error('Command failed')\<close> when the
  field is missing or falsy. The id is no longer in the queue afterwards.
\<close>

theorem observed_failure_is_thrown:
  assumes "steady_clock (pre @ [CommandResult b] @ mid @ [Wake k now])"
    and "\<forall>e\<in>set pre. prompt e"
    and "calls (run pre init_system) k = Some (Awaiting st)"
    and "commandId b = JNum k" and "\<not> truthy (success b)"
    and "\<forall>e\<in>set mid. \<not> reports_for k e \<and> \<not> wakes k e"
    and "now - st < timeout"
  shows "calls (run (pre @ [CommandResult b] @ mid @ [Wake k now]) init_system) k
           = Some (Settled (Threw (Err (if truthy (r_error b) then r_error b
                                        else JStr ''Command failed''))))
     \<and> (\<forall>m. r_error b = JStr m \<longrightarrow> m \<noteq> [] \<longrightarrow>
          calls (run (pre @ [CommandResult b] @ mid @ [Wake k now]) init_system) k
            = Some (Settled (Threw (Err (JStr m)))))
     \<and> k \<notin> map_keys (commandQueue (srv (run (pre @ [CommandResult b] @ mid @ [Wake k now])
            init_system)))"
proof -
  let ?sy = "run (pre @ [CommandResult b] @ mid) init_system"
  from report_kept_until_wake [OF assms(1-4) assms(6,7)] assms(5)
  obtain c where ck: "calls ?sy k = Some (Awaiting st)"
    and q: "map_get (commandQueue (srv ?sy)) k =
       Some (c\<lparr>status := Error, result := JObj [(''error'', r_error b)]\<rparr>)"
    by auto
  have w: "wait_check k st now (srv ?sy) =
      (Some (Threw (Err (if truthy (r_error b) then r_error b else JStr ''Command failed''))),
       (srv ?sy)\<lparr>commandQueue := map_delete (commandQueue (srv ?sy)) k\<rparr>)"
    using wait_check_error [OF assms(7) q] by (simp add: opt_prop_def js_or_def)
  have r: "run (pre @ [CommandResult b] @ mid @ [Wake k now]) init_system = step (Wake k now) ?sy"
    by (simp add: run_def)
  show ?thesis
    unfolding r using wake_settles [OF ck w]
    by (simp add: map_get_None_iff [symmetric] map_get_delete)
qed

text \<open>
  As the claim is written it fails: an empty error message and a missing one both
  surface as \<open>Command failed\<close>, and a failure reported after the last wake-up before
  the deadline surfaces as the timeout. When a call reads its timestamp at 0 and its
  start time at 40000, a sweep at 60001 removes the reported command and the wake-up at
  60100, within the deadline, fails on the missing command instead of throwing the
  reported message; so it does when the clock runs backwards, from a sweep that reads
  60001 to a wake-up that reads 100.
\<close>

theorem falsy_error_message_is_replaced:
  "calls (run [Call ''click_element'' (JObj []) 0 0 0,
       CommandResult \<lparr>commandId = JNum 1, success = JBool False,
          r_result = JUndefined, r_error = JStr ''''\<rparr>,
       Wake 1 100] init_system) 1
     = Some (Settled (Threw (Err (JStr ''Command failed''))))
   \<and> calls (run [Call ''click_element'' (JObj []) 0 0 0,
       CommandResult \<lparr>commandId = JNum 1, success = JBool False,
          r_result = JObj [(''success'', JBool False)], r_error = JUndefined\<rparr>,
       Wake 1 100] init_system) 1
     = Some (Settled (Threw (Err (JStr ''Command failed''))))
   \<and> calls (run [Call ''click_element'' (JObj []) 0 0 0, Wake 1 29950,
       CommandResult \<lparr>commandId = JNum 1, success = JBool False,
          r_result = JUndefined, r_error = JStr ''Element not found''\<rparr>,
       Wake 1 30050] init_system) 1
     = Some (Settled (Threw (Err (JStr ''Command timeout''))))
   \<and> calls (run [Call ''click_element'' (JObj []) 0 40000 40000,
       CommandResult \<lparr>commandId = JNum 1, success = JBool False,
          r_result = JUndefined, r_error = JStr ''Element not found''\<rparr>,
       Cleanup 60001, Wake 1 60100] init_system) 1
     = Some (Settled (Threw TypeErr))
   \<and> calls (run [Call ''click_element'' (JObj []) 0 0 0,
       CommandResult \<lparr>commandId = JNum 1, success = JBool False,
          r_result = JUndefined, r_error = JStr ''Element not found''\<rparr>,
       Cleanup 60001, Wake 1 100] init_system) 1
     = Some (Settled (Threw TypeErr))"
  by code_simp

theorem observed_failure_witness:
  "calls (run ([Call ''click_element'' (JObj [(''selector'', JStr ''#go'')]) 0 0 0, Wake 1 100]
       @ [CommandResult \<lparr>commandId = JNum 1, success = JBool False,
             r_result = JUndefined, r_error = JStr ''Element not found''\<rparr>]
       @ [PollCommands] @ [Wake 1 200]) init_system) 1
     = Some (Settled (Threw (Err (JStr ''Element not found''))))
   \<and> 1 \<notin> map_keys (commandQueue (srv (run
       ([Call ''click_element'' (JObj [(''selector'', JStr ''#go'')]) 0 0 0, Wake 1 100]
       @ [CommandResult \<lparr>commandId = JNum 1, success = JBool False,
             r_result = JUndefined, r_error = JStr ''Element not found''\<rparr>]
       @ [PollCommands] @ [Wake 1 200]) init_system)))"
proof -
  have s: "steady_clock ([Call ''click_element'' (JObj [(''selector'', JStr ''#go'')]) 0 0 0,
         Wake 1 100]
       @ [CommandResult \<lparr>commandId = JNum 1, success = JBool False,
             r_result = JUndefined, r_error = JStr ''Element not found''\<rparr>]
       @ [PollCommands] @ [Wake 1 200])"
    by (simp add: steady_clock_def clock_def)
  have p: "\<forall>e\<in>set [Call ''click_element'' (JObj [(''selector'', JStr ''#go'')]) 0 0 0,
         Wake 1 100]. prompt e"
    by (simp add: maxAge_def timeout_def)
  have a: "calls (run [Call ''click_element'' (JObj [(''selector'', JStr ''#go'')]) 0 0 0,
         Wake 1 100] init_system) 1 = Some (Awaiting 0)"
    by code_simp
  have m: "\<forall>e\<in>set [PollCommands]. \<not> reports_for 1 e \<and> \<not> wakes 1 e"
    by simp
  have l: "(200::int) - 0 < timeout" by (simp add: timeout_def)
  have i: "commandId \<lparr>commandId = JNum 1, success = JBool False,
             r_result = JUndefined, r_error = JStr ''Element not found''\<rparr> = JNum 1"
    by simp
  have t: "\<not> truthy (success \<lparr>commandId = JNum 1, success = JBool False,
             r_result = JUndefined, r_error = JStr ''Element not found''\<rparr>)"
    by simp
  from observed_failure_is_thrown [OF s p a i t m l] show ?thesis by simp
qed

subsection \<open>The unguarded read of the waiting loop\<close>

text \<open>
  Claim C9, as the code has it. Take a run from the initial state in which the readings
  of the clock never decrease and every call has read its timestamp and its start time
  at most 30000 ms apart (the margin between the 60000 ms of the cleanup and the 30000 ms
  of the call). Then no call ever fails with the TypeError of reading \<open>cmd.status\<close> on
  a missing command; a suspended call whose deadline no reading of the clock has reached
  still has its command in the queue, whatever sweeps of the cleanup have run; the read
  of a call that wakes up before its deadline finds the command; and a suspended call
  whose command a sweep has removed leaves the loop at its next wake-up with the timeout,
  without reading the command.
\<close>

theorem waiting_read_finds_the_command:
  assumes "steady_clock evs" and "\<forall>e\<in>set evs. prompt e"
  shows "(\<forall>k. calls (run evs init_system) k \<noteq> Some (Settled (Threw TypeErr)))
     \<and> (\<forall>k st. calls (run evs init_system) k = Some (Awaiting st) \<longrightarrow>
           (\<forall>t\<in>set (clock evs). t - st < timeout) \<longrightarrow>
           k \<in> map_keys (commandQueue (srv (run evs init_system))))
     \<and> (\<forall>k st now. calls (run evs init_system) k = Some (Awaiting st) \<longrightarrow>
           steady_clock (evs @ [Wake k now]) \<longrightarrow> now - st < timeout \<longrightarrow>
           map_get (commandQueue (srv (run evs init_system))) k \<noteq> None)
     \<and> (\<forall>k st now. calls (run evs init_system) k = Some (Awaiting st) \<longrightarrow>
           steady_clock (evs @ [Wake k now]) \<longrightarrow>
           map_get (commandQueue (srv (run evs init_system))) k = None \<longrightarrow>
           calls (run (evs @ [Wake k now]) init_system) k
             = Some (Settled (Threw (Err (JStr ''Command timeout'')))))"
proof -
  from reachable_inv [OF assms] have T: "timing_inv evs (run evs init_system)" by simp
  have 1: "\<forall>k. calls (run evs init_system) k \<noteq> Some (Settled (Threw TypeErr))"
    using T unfolding timing_inv_def by blast
  have 2: "\<forall>k st. calls (run evs init_system) k = Some (Awaiting st) \<longrightarrow>
           (\<forall>t\<in>set (clock evs). t - st < timeout) \<longrightarrow>
           map_get (commandQueue (srv (run evs init_system))) k \<noteq> None"
    using T unfolding timing_inv_def by fastforce
  have 3: "\<forall>k st now. calls (run evs init_system) k = Some (Awaiting st) \<longrightarrow>
           steady_clock (evs @ [Wake k now]) \<longrightarrow> now - st < timeout \<longrightarrow>
           map_get (commandQueue (srv (run evs init_system))) k \<noteq> None"
  proof (intro allI impI)
    fix k st now
    assume a: "calls (run evs init_system) k = Some (Awaiting st)"
      and c: "steady_clock (evs @ [Wake k now])" and lt: "now - st < timeout"
    from steady_snoc [OF c] have "\<forall>t\<in>set (clock evs). t \<le> now" by simp
    with lt have "\<forall>t\<in>set (clock evs). t - st < timeout" by fastforce
    with 2 a show "map_get (commandQueue (srv (run evs init_system))) k \<noteq> None" by blast
  qed
  have 4: "\<forall>k st now. calls (run evs init_system) k = Some (Awaiting st) \<longrightarrow>
           steady_clock (evs @ [Wake k now]) \<longrightarrow>
           map_get (commandQueue (srv (run evs init_system))) k = None \<longrightarrow>
           calls (run (evs @ [Wake k now]) init_system) k
             = Some (Settled (Threw (Err (JStr ''Command timeout''))))"
  proof (intro allI impI)
    fix k st now
    assume a: "calls (run evs init_system) k = Some (Awaiting st)"
      and c: "steady_clock (evs @ [Wake k now])"
      and n: "map_get (commandQueue (srv (run evs init_system))) k = None"
    from 3 a c n have "timeout \<le> now - st" by fastforce
    from wait_check_late [OF this] wake_settles(1) [OF a]
    show "calls (run (evs @ [Wake k now]) init_system) k
             = Some (Settled (Threw (Err (JStr ''Command timeout''))))"
      by (simp add: run_snoc)
  qed
  from 1 2 3 4 show ?thesis by (simp add: map_get_None_iff)
qed

text \<open>
  As the claim is written it fails. A sweep at 60001 removes the command of a call that
  is still suspended, its last wake-up having been at 100. And the read does fail: when
  a call reads its timestamp at 0 and its start time at 40000, a sweep at 60001 removes
  the command and the wake-up at 60100, within the deadline, reads a missing command; so
  does a wake-up whose clock has run backwards, from the 60001 of a sweep to 100.
\<close>

theorem reaped_while_suspended:
  "calls (run [Call ''click'' (JObj []) 0 0 0, Wake 1 100, Cleanup 60001] init_system) 1
     = Some (Awaiting 0)
   \<and> commandQueue (srv (run [Call ''click'' (JObj []) 0 0 0, Wake 1 100, Cleanup 60001]
        init_system)) = []
   \<and> calls (run [Call ''click'' (JObj []) 0 40000 40000, Cleanup 60001, Wake 1 60100]
        init_system) 1 = Some (Settled (Threw TypeErr))
   \<and> calls (run [Call ''click'' (JObj []) 0 0 0, Cleanup 60001, Wake 1 100] init_system) 1
     = Some (Settled (Threw TypeErr))"
  by code_simp

theorem waiting_read_witness:
  "calls (run [Call ''click'' (JObj []) 0 0 0, Wake 1 100, Call ''type'' (JObj []) 35000 35000 35000,
       Wake 1 35050, Cleanup 60000, Wake 2 60100] init_system) 2 = Some (Awaiting 35000)
   \<and> 2 \<in> map_keys (commandQueue (srv (run [Call ''click'' (JObj []) 0 0 0, Wake 1 100,
       Call ''type'' (JObj []) 35000 35000 35000, Wake 1 35050, Cleanup 60000, Wake 2 60100]
       init_system)))"
proof -
  have s: "steady_clock [Call ''click'' (JObj []) 0 0 0, Wake 1 100,
       Call ''type'' (JObj []) 35000 35000 35000, Wake 1 35050, Cleanup 60000, Wake 2 60100]"
    by (simp add: steady_clock_def clock_def)
  have p: "\<forall>e\<in>set [Call ''click'' (JObj []) 0 0 0, Wake 1 100,
       Call ''type'' (JObj []) 35000 35000 35000, Wake 1 35050, Cleanup 60000, Wake 2 60100].
       prompt e"
    by (simp add: maxAge_def timeout_def)
  have a: "calls (run [Call ''click'' (JObj []) 0 0 0, Wake 1 100,
       Call ''type'' (JObj []) 35000 35000 35000, Wake 1 35050, Cleanup 60000, Wake 2 60100]
       init_system) 2 = Some (Awaiting 35000)"
    by code_simp
  have c: "\<forall>t\<in>set (clock [Call ''click'' (JObj []) 0 0 0, Wake 1 100,
       Call ''type'' (JObj []) 35000 35000 35000, Wake 1 35050, Cleanup 60000, Wake 2 60100]).
       t - 35000 < timeout"
    by (simp add: clock_def timeout_def)
  from waiting_read_finds_the_command [OF s p] a c show ?thesis by blast
qed

subsection \<open>Calls that no report names\<close>

text \<open>
  Claim C2, as the code has it. \<open>sendCommandToExtension\<close> has no timeout parameter: the
  deadline is the constant 30000 ms. Whatever the clock does and whatever has been
  reported, a suspended call that wakes up with 30000 ms or more on the clock since its
  start throws \<open>Error('Command timeout')\<close> and its id is no longer in the queue. In a
  run in which the readings of the clock never decrease, every call has read its
  timestamp and its start time at most 30000 ms apart, and no report names the command,
  a call that has settled has thrown \<open>Error('Command timeout')\<close> and its id is not in
  the queue, and a call that is suspended stays suspended at every wake-up with less than
  30000 ms on the clock since its start.
\<close>

theorem unreported_call_times_out_at_30000:
  "(\<forall>st now. calls (run evs init_system) k = Some (Awaiting st) \<longrightarrow>
       30000 \<le> now - st \<longrightarrow>
       calls (run (evs @ [Wake k now]) init_system) k
         = Some (Settled (Threw (Err (JStr ''Command timeout''))))
       \<and> k \<notin> map_keys (commandQueue (srv (run (evs @ [Wake k now]) init_system))))
   \<and> (steady_clock evs \<and> (\<forall>e\<in>set evs. prompt e) \<and> (\<forall>e\<in>set evs. \<not> reports_for k e) \<longrightarrow>
        (\<forall>r. calls (run evs init_system) k = Some (Settled r) \<longrightarrow>
           r = Threw (Err (JStr ''Command timeout''))
           \<and> k \<notin> map_keys (commandQueue (srv (run evs init_system))))
        \<and> (\<forall>st now. calls (run evs init_system) k = Some (Awaiting st) \<longrightarrow>
              steady_clock (evs @ [Wake k now]) \<longrightarrow> now - st < 30000 \<longrightarrow>
              calls (run (evs @ [Wake k now]) init_system) k = Some (Awaiting st)))"
proof -
  let ?sy = "run evs init_system"
  have 1: "\<forall>r. calls ?sy k = Some (Settled r) \<longrightarrow>
           r = Threw (Err (JStr ''Command timeout'')) \<and> k \<notin> map_keys (commandQueue (srv ?sy))"
    if c: "steady_clock evs" and p: "\<forall>e\<in>set evs. prompt e"
      and n: "\<forall>e\<in>set evs. \<not> reports_for k e"
  proof -
    from reachable_inv [OF c p]
    have S: "struct_inv ?sy" and P: "report_inv evs ?sy" by simp_all
    show ?thesis
      using S P n unfolding struct_inv_def report_inv_def
      by (simp add: map_get_None_iff [symmetric])
  qed
  have 2: "\<forall>st now. calls ?sy k = Some (Awaiting st) \<longrightarrow>
           steady_clock (evs @ [Wake k now]) \<longrightarrow> now - st < 30000 \<longrightarrow>
           calls (run (evs @ [Wake k now]) init_system) k = Some (Awaiting st)"
    if c: "steady_clock evs" and p: "\<forall>e\<in>set evs. prompt e"
      and n: "\<forall>e\<in>set evs. \<not> reports_for k e"
  proof (intro allI impI)
    from reachable_inv [OF c p]
    have T: "timing_inv evs ?sy" and P: "report_inv evs ?sy" by simp_all
    fix st now assume a: "calls ?sy k = Some (Awaiting st)"
      and c': "steady_clock (evs @ [Wake k now])" and lt: "now - st < 30000"
    from steady_snoc [OF c'] have "\<forall>t\<in>set (clock evs). t \<le> now" by simp
    with lt have "\<forall>t\<in>set (clock evs). \<not> timeout \<le> t - st" by (fastforce simp: timeout_def)
    with T a obtain c where q: "map_get (commandQueue (srv ?sy)) k = Some c"
      unfolding timing_inv_def by blast
    with P n have "status c = Pending" unfolding report_inv_def by blast
    with q lt have "wait_check k st now (srv ?sy) = (None, srv ?sy)"
      by (simp add: wait_check_def timeout_def)
    with a show "calls (run (evs @ [Wake k now]) init_system) k = Some (Awaiting st)"
      by (simp add: run_snoc)
  qed
  have 3: "\<forall>st now. calls ?sy k = Some (Awaiting st) \<longrightarrow> 30000 \<le> now - st \<longrightarrow>
           calls (run (evs @ [Wake k now]) init_system) k
             = Some (Settled (Threw (Err (JStr ''Command timeout''))))
           \<and> k \<notin> map_keys (commandQueue (srv (run (evs @ [Wake k now]) init_system)))"
  proof (intro allI impI)
    fix st now assume a: "calls ?sy k = Some (Awaiting st)" and "30000 \<le> now - st"
    then have w: "wait_check k st now (srv ?sy) =
       (Some (Threw (Err (JStr ''Command timeout''))),
        (srv ?sy)\<lparr>commandQueue := map_delete (commandQueue (srv ?sy)) k\<rparr>)"
      by (simp add: wait_check_late timeout_def)
    from wake_settles [OF a w]
    show "calls (run (evs @ [Wake k now]) init_system) k
                = Some (Settled (Threw (Err (JStr ''Command timeout''))))
      \<and> k \<notin> map_keys (commandQueue (srv (run (evs @ [Wake k now]) init_system)))"
      by (simp add: run_snoc map_get_None_iff [symmetric] map_get_delete)
  qed
  from 1 2 3 show ?thesis by blast
qed

text \<open>
  As the claim is written it fails: a caller that wants to wait 1000 ms cannot say so.
  With no report at all the call is still suspended at the wake-ups at 1000 ms and at
  2000 ms, and its command is still in the queue. And with no report at all a call does
  not always end in the timeout: when it reads its timestamp at 0 and its start time at
  40000, a sweep at 60001 removes its command and the wake-up at 60100 fails on the
  missing command; so does a wake-up whose clock has run backwards, from the 60001 of a
  sweep to 100.
\<close>

theorem no_caller_supplied_timeout:
  "calls (run [Call ''navigate_to'' (JObj []) 0 0 0, Wake 1 1000, Wake 1 2000] init_system) 1
     = Some (Awaiting 0)
   \<and> map fst (commandQueue (srv (run [Call ''navigate_to'' (JObj []) 0 0 0, Wake 1 1000,
        Wake 1 2000] init_system))) = [1]
   \<and> calls (run [Call ''navigate_to'' (JObj []) 0 40000 40000, Cleanup 60001, Wake 1 60100]
        init_system) 1 = Some (Settled (Threw TypeErr))
   \<and> calls (run [Call ''navigate_to'' (JObj []) 0 0 0, Cleanup 60001, Wake 1 100]
        init_system) 1 = Some (Settled (Threw TypeErr))"
  by code_simp

theorem unreported_call_witness:
  "calls (run ([Call ''navigate_to'' (JObj []) 0 0 0, PollCommands, Wake 1 100, Cleanup 29000]
        @ [Wake 1 29999]) init_system) 1 = Some (Awaiting 0)
   \<and> calls (run ([Call ''navigate_to'' (JObj []) 0 0 0, PollCommands, Wake 1 100, Cleanup 29000]
        @ [Wake 1 30000]) init_system) 1
     = Some (Settled (Threw (Err (JStr ''Command timeout''))))
   \<and> 1 \<notin> map_keys (commandQueue (srv (run
        ([Call ''navigate_to'' (JObj []) 0 0 0, PollCommands, Wake 1 100, Cleanup 29000]
        @ [Wake 1 30000]) init_system)))"
proof -
  have s: "steady_clock [Call ''navigate_to'' (JObj []) 0 0 0, PollCommands, Wake 1 100,
      Cleanup 29000]"
    by (simp add: steady_clock_def clock_def)
  have s': "steady_clock ([Call ''navigate_to'' (JObj []) 0 0 0, PollCommands, Wake 1 100,
      Cleanup 29000] @ [Wake 1 29999])"
    by (simp add: steady_clock_def clock_def)
  have p: "\<forall>e\<in>set [Call ''navigate_to'' (JObj []) 0 0 0, PollCommands, Wake 1 100,
      Cleanup 29000]. prompt e"
    by (simp add: maxAge_def timeout_def)
  have n: "\<forall>e\<in>set [Call ''navigate_to'' (JObj []) 0 0 0, PollCommands, Wake 1 100,
      Cleanup 29000]. \<not> reports_for 1 e"
    by simp
  have a: "calls (run [Call ''navigate_to'' (JObj []) 0 0 0, PollCommands, Wake 1 100,
      Cleanup 29000] init_system) 1 = Some (Awaiting 0)"
    by code_simp
  note t = unreported_call_times_out_at_30000
    [of "[Call ''navigate_to'' (JObj []) 0 0 0, PollCommands, Wake 1 100, Cleanup 29000]" 1]
  from t a have late: "calls (run ([Call ''navigate_to'' (JObj []) 0 0 0, PollCommands, Wake 1 100,
        Cleanup 29000] @ [Wake 1 30000]) init_system) 1
     = Some (Settled (Threw (Err (JStr ''Command timeout''))))
   \<and> 1 \<notin> map_keys (commandQueue (srv (run
        ([Call ''navigate_to'' (JObj []) 0 0 0, PollCommands, Wake 1 100, Cleanup 29000]
        @ [Wake 1 30000]) init_system)))"
    by simp
  from t s p n a s' have "calls (run ([Call ''navigate_to'' (JObj []) 0 0 0, PollCommands,
        Wake 1 100, Cleanup 29000] @ [Wake 1 29999]) init_system) 1 = Some (Awaiting 0)"
    by simp
  with late show ?thesis by blast
qed

end
